theory Spec2Isabelle
  imports Main "HOL-Library.Word"
begin

section \<open>Data model\<close>

text \<open>
  A \<open>const node*\<close> is either one of the two terminal sentinels or the address of a
  node that lives in some \<open>std::set<node>\<close>. Addresses are positions in the
  allocation order of the whole process.
\<close>

datatype ref = ZERO | ONE | Addr nat

text \<open>
  Modelled from the spec: the header \<open>dag.h\<close> that declares \<open>node\<close>, \<open>ZERO\<close> and
  \<open>ONE\<close> is absent. A node is an immutable value with the three fields
  \<open>depth\<close>, \<open>negative_child\<close> and \<open>positive_child\<close>, and two nodes are equal iff
  all three fields are equal. The spec assigns no fields to the terminals, so reading a
  field through \<open>ZERO\<close> or \<open>ONE\<close> is an error of the model (\<open>BadDeref\<close>).
\<close>

record node =
  depth :: "32 word"
  negative :: ref
  positive :: ref

type_synonym sid = nat

text \<open>
  The process state: every node ever inserted, tagged with the \<open>std::set<node>\<close> that
  owns it, in allocation order (a \<open>std::set\<close> never moves its elements, and this
  code never erases one), and the static pointer \<open>s_factors\<close>.
\<close>

record gstate =
  cells :: "(sid \<times> node) list"
  s_factors :: "sid option"

text \<open>
  \<open>NoStoreBound\<close> is the call \<open>s_factors->emplace\<close> through a null \<open>s_factors\<close>,
  which ends the process. \<open>OutOfFuel\<close> is no behaviour of the program: it marks a run
  of the model whose fuel was too small for the depth of the recursion.
\<close>

datatype error = NoStoreBound | BadDeref | OutOfFuel

type_synonym 'a result = "error + 'a"

definition bindE :: "'a result \<Rightarrow> ('a \<Rightarrow> 'b result) \<Rightarrow> 'b result" where
  "bindE m f = (case m of Inl e \<Rightarrow> Inl e | Inr v \<Rightarrow> f v)"

text \<open>
  The position of the first element equal to \<open>x\<close>. A \<open>std::set\<close> holds no two
  equivalent elements, so the first is the only one.
\<close>

fun index_of :: "'a \<Rightarrow> 'a list \<Rightarrow> nat option" where
  "index_of x [] = None"
| "index_of x (y # ys) =
     (if x = y then Some 0 else map_option Suc (index_of x ys))"

text \<open>Reading the fields of the node a pointer refers to (\<open>a_x->depth()\<close> and so on).\<close>

definition deref :: "gstate \<Rightarrow> ref \<Rightarrow> node option" where
  "deref st r = (case r of
       Addr a \<Rightarrow> (if a < length (cells st) then Some (snd (cells st ! a)) else None)
     | _ \<Rightarrow> None)"

text \<open>The contents of one \<open>std::set<node>\<close>.\<close>

definition store_nodes :: "gstate \<Rightarrow> sid \<Rightarrow> node set" where
  "store_nodes st s = {nd. (s, nd) \<in> set (cells st)}"

section \<open>The canonical node store\<close>

text \<open>\<open>global_node_sink::emplace\<close> (karnaugh.h, lines 136-152).\<close>

definition emplace :: "32 word \<Rightarrow> ref \<Rightarrow> ref \<Rightarrow> gstate \<Rightarrow> (ref \<times> gstate) result" where
  "emplace a_depth a_left_child a_right_child st =
     (if a_left_child = a_right_child then Inr (a_left_child, st)
      else (case s_factors st of
              None \<Rightarrow> Inl NoStoreBound
            | Some s \<Rightarrow>
                (let nd = \<lparr>depth = a_depth, negative = a_left_child, positive = a_right_child\<rparr>
                 in case index_of (s, nd) (cells st) of
                      Some a \<Rightarrow> Inr (Addr a, st)
                    | None \<Rightarrow> Inr (Addr (length (cells st)),
                                   st\<lparr>cells := cells st @ [(s, nd)]\<rparr>))))"

text \<open>
  The same function of namespace \<open>dag\<close> (dag_logic.h, lines 36-52), whose text is
  identical.
\<close>

definition dag_emplace :: "32 word \<Rightarrow> ref \<Rightarrow> ref \<Rightarrow> gstate \<Rightarrow> (ref \<times> gstate) result" where
  "dag_emplace a_depth a_left_child a_right_child st =
     (if a_left_child = a_right_child then Inr (a_left_child, st)
      else (case s_factors st of
              None \<Rightarrow> Inl NoStoreBound
            | Some s \<Rightarrow>
                (let nd = \<lparr>depth = a_depth, negative = a_left_child, positive = a_right_child\<rparr>
                 in case index_of (s, nd) (cells st) of
                      Some a \<Rightarrow> Inr (Addr a, st)
                    | None \<Rightarrow> Inr (Addr (length (cells st)),
                                   st\<lparr>cells := cells st @ [(s, nd)]\<rparr>))))"

text \<open>\<open>global_node_sink::bind\<close> (karnaugh.h, lines 154-167).\<close>

definition bind :: "sid option \<Rightarrow> gstate \<Rightarrow> sid option \<times> gstate" where
  "bind a_factors st = (s_factors st, st\<lparr>s_factors := a_factors\<rparr>)"

section \<open>Literals, complement and join\<close>

text \<open>\<open>literal\<close> (karnaugh.h, lines 171-182).\<close>

definition literal :: "32 word \<Rightarrow> bool \<Rightarrow> gstate \<Rightarrow> (ref \<times> gstate) result" where
  "literal a_variable_index a_sign st =
     emplace a_variable_index
       (if \<not> a_sign then ONE else ZERO)
       (if a_sign then ONE else ZERO) st"

text \<open>
  The macro \<open>CACHE(cache, key, value)\<close> evaluates \<open>value\<close> only when the key is
  absent and then stores it. The recursion of the source is bounded here by a fuel
  argument that is consumed by each nested call; a call that short-circuits or hits the
  cache needs none. The two recursive calls are arguments of one call of \<open>emplace\<close>;
  C++ leaves their order open, and the model runs the one on the negative children
  first. \<open>invert\<close> is karnaugh.h, lines 184-218.
\<close>

fun invert_c :: "nat \<Rightarrow> (ref \<rightharpoonup> ref) \<Rightarrow> ref \<Rightarrow> gstate \<Rightarrow> (ref \<times> (ref \<rightharpoonup> ref) \<times> gstate) result" where
  "invert_c fuel a_cache a_node st =
     (if a_node = ZERO then Inr (ONE, a_cache, st)
      else if a_node = ONE then Inr (ZERO, a_cache, st)
      else (case a_cache a_node of
              Some v \<Rightarrow> Inr (v, a_cache, st)
            | None \<Rightarrow>
               (case deref st a_node of
                  None \<Rightarrow> Inl BadDeref
                | Some nd \<Rightarrow>
                   (case fuel of
                      0 \<Rightarrow> Inl OutOfFuel
                    | Suc k \<Rightarrow>
                        bindE (invert_c k a_cache (negative nd) st) (\<lambda>(l, c1, st1).
                        bindE (invert_c k c1 (positive nd) st1) (\<lambda>(r, c2, st2).
                        bindE (emplace (depth nd) l r st2) (\<lambda>(v, st3).
                        Inr (v, c2(a_node \<mapsto> v), st3))))))))"

declare invert_c.simps [simp del]

definition invert :: "nat \<Rightarrow> ref \<Rightarrow> gstate \<Rightarrow> (ref \<times> gstate) result" where
  "invert fuel a_node st =
     bindE (invert_c fuel Map.empty a_node st) (\<lambda>(v, c, st'). Inr (v, st'))"

text \<open>
  \<open>join\<close> with its cache (karnaugh.h, lines 220-277). The cache key is the set
  \<open>{a_x, a_y}\<close>.
\<close>

fun join_c :: "nat \<Rightarrow> (ref set \<rightharpoonup> ref) \<Rightarrow> ref \<Rightarrow> ref \<Rightarrow> ref \<Rightarrow> ref \<Rightarrow> gstate
    \<Rightarrow> (ref \<times> (ref set \<rightharpoonup> ref) \<times> gstate) result" where
  "join_c fuel a_cache a_ident a_antident a_x a_y st =
     (if a_x = a_ident then Inr (a_y, a_cache, st)
      else if a_y = a_ident then Inr (a_x, a_cache, st)
      else if a_x = a_antident \<or> a_y = a_antident then Inr (a_antident, a_cache, st)
      else (case deref st a_x of
              None \<Rightarrow> Inl BadDeref
            | Some nx \<Rightarrow>
               (case deref st a_y of
                  None \<Rightarrow> Inl BadDeref
                | Some ny \<Rightarrow>
                   (let l_x_left = (if depth nx > depth ny then a_x else negative nx);
                        l_x_right = (if depth nx > depth ny then a_x else positive nx);
                        l_y_left = (if \<not> depth nx > depth ny \<and> depth ny > depth nx
                                    then a_y else negative ny);
                        l_y_right = (if \<not> depth nx > depth ny \<and> depth ny > depth nx
                                     then a_y else positive ny);
                        l_key = {a_x, a_y}
                    in (case a_cache l_key of
                          Some v \<Rightarrow> Inr (v, a_cache, st)
                        | None \<Rightarrow>
                           (case fuel of
                              0 \<Rightarrow> Inl OutOfFuel
                            | Suc k \<Rightarrow>
                                bindE (join_c k a_cache a_ident a_antident l_x_left l_y_left st)
                                  (\<lambda>(lo, c1, st1).
                                bindE (join_c k c1 a_ident a_antident l_x_right l_y_right st1)
                                  (\<lambda>(hi, c2, st2).
                                bindE (emplace (min (depth nx) (depth ny)) lo hi st2)
                                  (\<lambda>(v, st3).
                                Inr (v, c2(l_key \<mapsto> v), st3))))))))))"

declare join_c.simps [simp del]

text \<open>
  The variadic \<open>join\<close> (karnaugh.h, lines 279-298) with the pack
  \<open>a_remaining_operands\<close> as a list, and its two instances \<open>disjoin\<close> and
  \<open>conjoin\<close> (lines 300-318).
\<close>

fun join_v :: "nat \<Rightarrow> ref \<Rightarrow> ref \<Rightarrow> ref \<Rightarrow> ref \<Rightarrow> ref list \<Rightarrow> gstate \<Rightarrow> (ref \<times> gstate) result" where
  "join_v fuel a_ident a_antident a_x a_y a_remaining_operands st =
     bindE (join_c fuel Map.empty a_ident a_antident a_x a_y st) (\<lambda>(l_junction, c, st').
       (case a_remaining_operands of
          [] \<Rightarrow> Inr (l_junction, st')
        | z # zs \<Rightarrow> join_v fuel a_ident a_antident l_junction z zs st'))"

declare join_v.simps [simp del]

definition disjoin :: "nat \<Rightarrow> ref \<Rightarrow> ref \<Rightarrow> ref list \<Rightarrow> gstate \<Rightarrow> (ref \<times> gstate) result" where
  "disjoin fuel a_x a_y a_remaining_operands st =
     join_v fuel ZERO ONE a_x a_y a_remaining_operands st"

definition conjoin :: "nat \<Rightarrow> ref \<Rightarrow> ref \<Rightarrow> ref list \<Rightarrow> gstate \<Rightarrow> (ref \<times> gstate) result" where
  "conjoin fuel a_x a_y a_remaining_operands st =
     join_v fuel ONE ZERO a_x a_y a_remaining_operands st"

section \<open>Reachable states and invariants\<close>

text \<open>
  A valid reference is a terminal or the address of an allocated node. \<open>only_into A\<close>
  relates two states when the second has the binding of the first and all its new nodes
  belong to store \<open>A\<close>. The reachable states are those that calls of \<open>bind\<close> and of
  the construction primitives on valid references produce from the initial state, in
  which no node exists and no store is bound.
\<close>

definition valid_ref :: "gstate \<Rightarrow> ref \<Rightarrow> bool" where
  "valid_ref st r = (case r of Addr a \<Rightarrow> a < length (cells st) | _ \<Rightarrow> True)"

definition only_into :: "sid \<Rightarrow> gstate \<Rightarrow> gstate \<Rightarrow> bool" where
  "only_into A st st' \<longleftrightarrow>
     s_factors st' = s_factors st \<and>
     (\<exists>ys. cells st' = cells st @ ys \<and> (\<forall>c\<in>set ys. fst c = A))"

inductive reachable :: "gstate \<Rightarrow> bool" where
  r_init: "reachable \<lparr>cells = [], s_factors = None\<rparr>"
| r_bind: "reachable st \<Longrightarrow> reachable (snd (bind s st))"
| r_emplace: "reachable st \<Longrightarrow> valid_ref st l \<Longrightarrow> valid_ref st r \<Longrightarrow>
     emplace d l r st = Inr (v, st') \<Longrightarrow> reachable st'"
| r_literal: "reachable st \<Longrightarrow> literal i b st = Inr (v, st') \<Longrightarrow> reachable st'"
| r_invert: "reachable st \<Longrightarrow> valid_ref st x \<Longrightarrow>
     invert n x st = Inr (v, st') \<Longrightarrow> reachable st'"
| r_join: "reachable st \<Longrightarrow> valid_ref st I \<Longrightarrow> valid_ref st A \<Longrightarrow> valid_ref st x \<Longrightarrow>
     valid_ref st y \<Longrightarrow> \<forall>z\<in>set zs. valid_ref st z \<Longrightarrow>
     join_v n I A x y zs st = Inr (v, st') \<Longrightarrow> reachable st'"

text \<open>No stored node has two equal children.\<close>

definition reduced :: "gstate \<Rightarrow> bool" where
  "reduced st \<longleftrightarrow> (\<forall>c\<in>set (cells st). negative (snd c) \<noteq> positive (snd c))"

text \<open>Example states: the literal of variable 0 in store 0, and two empty states.\<close>

definition ex_lit :: gstate where
  "ex_lit = \<lparr>cells = [(0, \<lparr>depth = 0, negative = ZERO, positive = ONE\<rparr>)], s_factors = Some 0\<rparr>"


definition ex_empty :: gstate where
  "ex_empty = \<lparr>cells = [], s_factors = Some 0\<rparr>"

section \<open>Denotation of a diagram\<close>

text \<open>
  The rank of a reference bounds the depth of a recursion that starts there: in a state
  built by the primitives every child was allocated before its parent
  (\<open>children_before\<close>).
\<close>

fun rank :: "ref \<Rightarrow> nat" where
  "rank ZERO = 0"
| "rank ONE = 0"
| "rank (Addr a) = Suc a"

text \<open>
  The boolean function a reference denotes in a heap, under an assignment of the
  variables: \<open>ZERO\<close> is false, \<open>ONE\<close> is true, and a node selects its positive child
  when its variable is true and its negative child otherwise. A child that is not
  allocated before its parent is read as false, which makes the function total.
\<close>

function denote :: "(sid \<times> node) list \<Rightarrow> ref \<Rightarrow> (32 word \<Rightarrow> bool) \<Rightarrow> bool" where
  "denote h ZERO env = False"
| "denote h ONE env = True"
| "denote h (Addr a) env =
     (if a < length h
      then (let c = (if env (depth (snd (h ! a))) then positive (snd (h ! a))
                     else negative (snd (h ! a)))
            in if rank c \<le> a then denote h c env else False)
      else False)"
  by pat_completeness auto
termination
  by (relation "measure (\<lambda>(h, r, env). rank r)") auto

declare denote.simps(3) [simp del]

text \<open>
  \<open>bop\<close> is the boolean operator that a pair of identity and annihilator selects,
  \<open>jcache_ok\<close> says that every entry of a join cache is a valid reference for the
  combination of its key, and \<open>join_ok\<close> collects what a successful call of the join
  establishes. \<open>heap_inv\<close> is the invariant of all reachable states.
\<close>

definition children_before :: "(sid \<times> node) list \<Rightarrow> bool" where
  "children_before h \<longleftrightarrow>
     (\<forall>a < length h. rank (negative (snd (h ! a))) \<le> a \<and> rank (positive (snd (h ! a))) \<le> a)"

definition bop :: "ref \<Rightarrow> bool \<Rightarrow> bool \<Rightarrow> bool" where
  "bop a_ident p q = (if a_ident = ONE then p \<and> q else p \<or> q)"

definition jcache_ok :: "ref \<Rightarrow> (sid \<times> node) list \<Rightarrow> (ref set \<rightharpoonup> ref) \<Rightarrow> bool" where
  "jcache_ok a_ident h c \<longleftrightarrow>
     (\<forall>x y v. c {x, y} = Some v \<longrightarrow>
        rank v \<le> length h \<and> rank x \<le> length h \<and> rank y \<le> length h \<and>
        (\<forall>env. denote h v env = bop a_ident (denote h x env) (denote h y env)))"

definition join_ok :: "sid \<Rightarrow> ref \<Rightarrow> gstate \<Rightarrow> ref \<Rightarrow> ref
    \<Rightarrow> (ref \<times> (ref set \<rightharpoonup> ref) \<times> gstate) result \<Rightarrow> bool" where
  "join_ok s a_ident st x y res \<longleftrightarrow>
     (\<exists>v c' st'. res = Inr (v, c', st') \<and> s_factors st' = Some s
        \<and> (\<exists>ys. cells st' = cells st @ ys) \<and> children_before (cells st')
        \<and> rank v \<le> length (cells st') \<and> jcache_ok a_ident (cells st') c'
        \<and> (\<forall>env. denote (cells st') v env
               = bop a_ident (denote (cells st) x env) (denote (cells st) y env)))"

definition heap_inv :: "gstate \<Rightarrow> bool" where
  "heap_inv st \<longleftrightarrow> children_before (cells st) \<and> distinct (cells st) \<and> reduced st"

text \<open>Example state: the literals \<open>a\<close> of variable 0 and \<open>b'\<close> of variable 1 in store 0.\<close>

definition ex_two :: gstate where
  "ex_two = \<lparr>cells = [(0, \<lparr>depth = 0, negative = ZERO, positive = ONE\<rparr>),
                       (0, \<lparr>depth = 1, negative = ONE, positive = ZERO\<rparr>)],
             s_factors = Some 0\<rparr>"

text \<open>
  \<open>in_store h s r\<close>: every node of the diagram \<open>r\<close> lives in the store \<open>s\<close>, and each
  was allocated after its children.
\<close>

function in_store :: "(sid \<times> node) list \<Rightarrow> sid \<Rightarrow> ref \<Rightarrow> bool" where
  "in_store h s ZERO = True"
| "in_store h s ONE = True"
| "in_store h s (Addr a) =
     (if a < length h \<and> fst (h ! a) = s \<and> rank (negative (snd (h ! a))) \<le> a
          \<and> rank (positive (snd (h ! a))) \<le> a
      then in_store h s (negative (snd (h ! a))) \<and> in_store h s (positive (snd (h ! a)))
      else False)"
  by pat_completeness auto
termination
  by (relation "measure (\<lambda>(h, s, r). rank r)") auto

declare in_store.simps(3) [simp del]

text \<open>
  \<open>inv_rel h s x y\<close>: \<open>x\<close> and \<open>y\<close> are diagrams of store \<open>s\<close> of the same shape
  with the terminals exchanged.
\<close>

inductive inv_rel :: "(sid \<times> node) list \<Rightarrow> sid \<Rightarrow> ref \<Rightarrow> ref \<Rightarrow> bool"
  for h :: "(sid \<times> node) list" and s :: sid where
  ir_zero: "inv_rel h s ZERO ONE"
| ir_one: "inv_rel h s ONE ZERO"
| ir_node: "a < length h \<Longrightarrow> b < length h \<Longrightarrow> h ! a = (s, na) \<Longrightarrow> h ! b = (s, nb)
     \<Longrightarrow> depth na = depth nb \<Longrightarrow> inv_rel h s (negative na) (negative nb)
     \<Longrightarrow> inv_rel h s (positive na) (positive nb) \<Longrightarrow> inv_rel h s (Addr a) (Addr b)"

inductive_cases inv_rel_ZERO: "inv_rel h s ZERO y"
inductive_cases inv_rel_ONE: "inv_rel h s ONE y"
inductive_cases inv_rel_Addr: "inv_rel h s (Addr a) y"

text \<open>
  The invariant of the cache of \<open>invert\<close>, and the part of the state invariant that
  the complement needs: store \<open>s\<close> is bound, no node is stored twice and no node
  has two equal children.
\<close>

definition icache_ok :: "(sid \<times> node) list \<Rightarrow> sid \<Rightarrow> (ref \<rightharpoonup> ref) \<Rightarrow> bool" where
  "icache_ok h s c \<longleftrightarrow> (\<forall>a w. c a = Some w \<longrightarrow> inv_rel h s a w)"

definition sink_inv :: "sid \<Rightarrow> gstate \<Rightarrow> bool" where
  "sink_inv s st \<longleftrightarrow> s_factors st = Some s \<and> distinct (cells st) \<and> reduced st"

text \<open>
  Example states: the literal of variable 0 built in store 0 with store 1 bound, the
  same after one and after two complements, and two literals with no store bound.
\<close>

definition ex_other :: gstate where
  "ex_other = \<lparr>cells = [(0, \<lparr>depth = 0, negative = ZERO, positive = ONE\<rparr>)], s_factors = Some 1\<rparr>"

definition ex_other_inv :: gstate where
  "ex_other_inv = \<lparr>cells = [(0, \<lparr>depth = 0, negative = ZERO, positive = ONE\<rparr>),
                             (1, \<lparr>depth = 0, negative = ONE, positive = ZERO\<rparr>)],
                   s_factors = Some 1\<rparr>"

definition ex_other_inv2 :: gstate where
  "ex_other_inv2 = \<lparr>cells = [(0, \<lparr>depth = 0, negative = ZERO, positive = ONE\<rparr>),
                              (1, \<lparr>depth = 0, negative = ONE, positive = ZERO\<rparr>),
                              (1, \<lparr>depth = 0, negative = ZERO, positive = ONE\<rparr>)],
                    s_factors = Some 1\<rparr>"


section \<open>The cache of the variadic join\<close>

text \<open>
  The value of \<open>l_cache\<close> with which each pairwise step of the variadic \<open>join\<close> of the
  source is entered, in order: the recursion of \<open>join_v\<close>, with the cache handed to
  \<open>join_c\<close> recorded. Every instantiation of the variadic overload constructs its own
  \<open>l_cache\<close> (karnaugh.h, line 288), and the recursive call of line 294 is a call of
  the variadic overload.
\<close>

fun join_v_entry_caches :: "nat \<Rightarrow> ref \<Rightarrow> ref \<Rightarrow> ref \<Rightarrow> ref \<Rightarrow> ref list \<Rightarrow> gstate
    \<Rightarrow> (ref set \<rightharpoonup> ref) list" where
  "join_v_entry_caches fuel a_ident a_antident a_x a_y a_remaining_operands st =
     Map.empty #
     (case join_c fuel Map.empty a_ident a_antident a_x a_y st of
        Inl e \<Rightarrow> []
      | Inr (l_junction, c, st') \<Rightarrow>
          (case a_remaining_operands of
             [] \<Rightarrow> []
           | z # zs \<Rightarrow> join_v_entry_caches fuel a_ident a_antident l_junction z zs st'))"

declare join_v_entry_caches.simps [simp del]

text \<open>
  The same trace for the variadic join as the specification words it: one fresh cache
  for the whole call, which each pairwise step hands to the next.
\<close>

fun shared_entry_caches :: "nat \<Rightarrow> (ref set \<rightharpoonup> ref) \<Rightarrow> ref \<Rightarrow> ref \<Rightarrow> ref \<Rightarrow> ref \<Rightarrow> ref list
    \<Rightarrow> gstate \<Rightarrow> (ref set \<rightharpoonup> ref) list" where
  "shared_entry_caches fuel cache a_ident a_antident a_x a_y a_remaining_operands st =
     cache #
     (case join_c fuel cache a_ident a_antident a_x a_y st of
        Inl e \<Rightarrow> []
      | Inr (l_junction, c, st') \<Rightarrow>
          (case a_remaining_operands of
             [] \<Rightarrow> []
           | z # zs \<Rightarrow> shared_entry_caches fuel c a_ident a_antident l_junction z zs st'))"

declare shared_entry_caches.simps [simp del]

text \<open>Example state: \<open>ex_two\<close> after \<open>disjoin(a, b')\<close>.\<close>

definition ex_two_or :: gstate where
  "ex_two_or = \<lparr>cells = [(0, \<lparr>depth = 0, negative = ZERO, positive = ONE\<rparr>),
                          (0, \<lparr>depth = 1, negative = ONE, positive = ZERO\<rparr>),
                          (0, \<lparr>depth = 0, negative = Addr 1, positive = ONE\<rparr>)],
                s_factors = Some 0\<rparr>"

section \<open>Ordered diagrams\<close>

text \<open>
  \<open>above h d r\<close>: the reference \<open>r\<close> is a terminal or a node that tests a variable
  greater than \<open>d\<close>. \<open>ordered_in h s r\<close>: every node of the diagram \<open>r\<close> lives in the
  store \<open>s\<close>, was allocated after its children and tests a variable smaller than the
  ones its children test.
\<close>

definition above :: "(sid \<times> node) list \<Rightarrow> 32 word \<Rightarrow> ref \<Rightarrow> bool" where
  "above h d r = (case r of Addr b \<Rightarrow> b < length h \<and> d < depth (snd (h ! b)) | _ \<Rightarrow> True)"

function ordered_in :: "(sid \<times> node) list \<Rightarrow> sid \<Rightarrow> ref \<Rightarrow> bool" where
  "ordered_in h s ZERO = True"
| "ordered_in h s ONE = True"
| "ordered_in h s (Addr a) =
     (if a < length h \<and> fst (h ! a) = s \<and> rank (negative (snd (h ! a))) \<le> a
          \<and> rank (positive (snd (h ! a))) \<le> a
      then above h (depth (snd (h ! a))) (negative (snd (h ! a)))
         \<and> above h (depth (snd (h ! a))) (positive (snd (h ! a)))
         \<and> ordered_in h s (negative (snd (h ! a))) \<and> ordered_in h s (positive (snd (h ! a)))
      else False)"
  by pat_completeness auto
termination
  by (relation "measure (\<lambda>(h, s, r). rank r)") auto

declare ordered_in.simps(3) [simp del]

text \<open>
  The invariants of the two caches for ordered diagrams: every entry is an ordered
  diagram of the store that tests no variable below those of its key.
\<close>

definition ocache_ok :: "(sid \<times> node) list \<Rightarrow> sid \<Rightarrow> (ref set \<rightharpoonup> ref) \<Rightarrow> bool" where
  "ocache_ok h s c \<longleftrightarrow>
     (\<forall>k w. c k = Some w \<longrightarrow> ordered_in h s w) \<and>
     (\<forall>x y v. c {x, y} = Some v \<longrightarrow>
        rank x \<le> length h \<and> rank y \<le> length h \<and>
        (\<forall>d. above h d x \<and> above h d y \<longrightarrow> above h d v))"

definition oicache_ok :: "(sid \<times> node) list \<Rightarrow> sid \<Rightarrow> (ref \<rightharpoonup> ref) \<Rightarrow> bool" where
  "oicache_ok h s c \<longleftrightarrow>
     (\<forall>x v. c x = Some v \<longrightarrow>
        rank x \<le> length h \<and> ordered_in h s v \<and> (\<forall>d. above h d x \<longrightarrow> above h d v))"

text \<open>
  Example state: the literal \<open>a\<close> of variable 0 and the node \<open>emplace(0, ZERO, a)\<close>,
  which tests variable 0 above a child that tests it again.
\<close>

definition ex_dup :: gstate where
  "ex_dup = \<lparr>cells = [(0, \<lparr>depth = 0, negative = ZERO, positive = ONE\<rparr>),
                       (0, \<lparr>depth = 0, negative = ZERO, positive = Addr 0\<rparr>)],
             s_factors = Some 0\<rparr>"


text \<open>
  Example states: the two literals of \<open>ex_two\<close> (store 0) with store 1 bound, then after
  \<open>disjoin(a, b')\<close>, after \<open>literal(1, false)\<close> and after the disjunction of \<open>a\<close> with
  that literal, all built while store 1 is bound.
\<close>

definition ex_m0 :: gstate where
  "ex_m0 = \<lparr>cells = [(0, \<lparr>depth = 0, negative = ZERO, positive = ONE\<rparr>),
                      (0, \<lparr>depth = 1, negative = ONE, positive = ZERO\<rparr>)],
            s_factors = Some 1\<rparr>"

definition ex_m1 :: gstate where
  "ex_m1 = \<lparr>cells = [(0, \<lparr>depth = 0, negative = ZERO, positive = ONE\<rparr>),
                      (0, \<lparr>depth = 1, negative = ONE, positive = ZERO\<rparr>),
                      (1, \<lparr>depth = 0, negative = Addr 1, positive = ONE\<rparr>)],
            s_factors = Some 1\<rparr>"

definition ex_m2 :: gstate where
  "ex_m2 = \<lparr>cells = [(0, \<lparr>depth = 0, negative = ZERO, positive = ONE\<rparr>),
                      (0, \<lparr>depth = 1, negative = ONE, positive = ZERO\<rparr>),
                      (1, \<lparr>depth = 0, negative = Addr 1, positive = ONE\<rparr>),
                      (1, \<lparr>depth = 1, negative = ONE, positive = ZERO\<rparr>)],
            s_factors = Some 1\<rparr>"

definition ex_m3 :: gstate where
  "ex_m3 = \<lparr>cells = [(0, \<lparr>depth = 0, negative = ZERO, positive = ONE\<rparr>),
                      (0, \<lparr>depth = 1, negative = ONE, positive = ZERO\<rparr>),
                      (1, \<lparr>depth = 0, negative = Addr 1, positive = ONE\<rparr>),
                      (1, \<lparr>depth = 1, negative = ONE, positive = ZERO\<rparr>),
                      (1, \<lparr>depth = 0, negative = Addr 3, positive = ONE\<rparr>)],
            s_factors = Some 1\<rparr>"

section \<open>Basic facts\<close>

lemma bindE_Inr_iff: "bindE m f = Inr v \<longleftrightarrow> (\<exists>a. m = Inr a \<and> f a = Inr v)"
  by (cases m) (simp_all add: bindE_def)

lemma bindE_Inr [simp]: "bindE (Inr a) f = f a"
  by (simp add: bindE_def)

lemma bindE_Inl [simp]: "bindE (Inl e) f = Inl e"
  by (simp add: bindE_def)

lemma index_of_Some: "index_of x xs = Some i \<Longrightarrow> i < length xs \<and> xs ! i = x"
  by (induction xs arbitrary: i) (auto split: if_splits)

lemma index_of_None: "index_of x xs = None \<longleftrightarrow> x \<notin> set xs"
  by (induction xs) auto

lemma index_of_append: "index_of x xs = Some i \<Longrightarrow> index_of x (xs @ ys) = Some i"
  by (induction xs arbitrary: i) (auto split: if_splits)

lemma index_of_snoc: "index_of x xs = None \<Longrightarrow> index_of x (xs @ [x]) = Some (length xs)"
  by (induction xs) (auto split: if_splits)

lemma index_of_distinct: "distinct xs \<Longrightarrow> i < length xs \<Longrightarrow> index_of (xs ! i) xs = Some i"
proof (induction xs arbitrary: i)
  case Nil
  then show ?case by simp
next
  case (Cons y ys)
  show ?case
  proof (cases i)
    case 0
    then show ?thesis by simp
  next
    case (Suc j)
    with Cons.prems have "j < length ys" "ys ! j \<in> set ys" "y \<notin> set ys" "distinct ys" by auto
    with Cons.IH[of j] Suc show ?thesis by auto
  qed
qed

lemma emplace_cases:
  assumes "emplace d l r st = Inr (v, st')"
  shows "(l = r \<and> v = l \<and> st' = st)
       \<or> (l \<noteq> r \<and> (\<exists>s. s_factors st = Some s \<and>
            ((\<exists>a. index_of (s, \<lparr>depth = d, negative = l, positive = r\<rparr>) (cells st) = Some a
                  \<and> v = Addr a \<and> st' = st)
           \<or> (index_of (s, \<lparr>depth = d, negative = l, positive = r\<rparr>) (cells st) = None
                  \<and> v = Addr (length (cells st))
                  \<and> st' = st\<lparr>cells := cells st @ [(s, \<lparr>depth = d, negative = l, positive = r\<rparr>)]\<rparr>))))"
  using assms by (auto simp: emplace_def Let_def split: if_splits option.splits)

lemma emplace_unbound: "l \<noteq> r \<Longrightarrow> s_factors st = None \<Longrightarrow> emplace d l r st = Inl NoStoreBound"
  by (simp add: emplace_def)

lemma invert_c_cases:
  assumes "invert_c n c x st = Inr (v, c', st')"
  shows "(x = ZERO \<and> v = ONE \<and> c' = c \<and> st' = st)
       \<or> (x = ONE \<and> v = ZERO \<and> c' = c \<and> st' = st)
       \<or> (x \<noteq> ZERO \<and> x \<noteq> ONE \<and> c x = Some v \<and> c' = c \<and> st' = st)
       \<or> (x \<noteq> ZERO \<and> x \<noteq> ONE \<and> c x = None \<and>
           (\<exists>k nd l c1 st1 r c2 st2. n = Suc k \<and> deref st x = Some nd
              \<and> invert_c k c (negative nd) st = Inr (l, c1, st1)
              \<and> invert_c k c1 (positive nd) st1 = Inr (r, c2, st2)
              \<and> emplace (depth nd) l r st2 = Inr (v, st')
              \<and> c' = c2(x \<mapsto> v)))"
  using assms
  apply (subst (asm) invert_c.simps)
  apply (auto simp: bindE_Inr_iff split: if_splits option.splits nat.splits)
  done

lemma join_c_cases:
  assumes "join_c n c I A x y st = Inr (v, c', st')"
  shows "(x = I \<and> v = y \<and> c' = c \<and> st' = st)
       \<or> (x \<noteq> I \<and> y = I \<and> v = x \<and> c' = c \<and> st' = st)
       \<or> (x \<noteq> I \<and> y \<noteq> I \<and> (x = A \<or> y = A) \<and> v = A \<and> c' = c \<and> st' = st)
       \<or> (x \<noteq> I \<and> y \<noteq> I \<and> x \<noteq> A \<and> y \<noteq> A \<and>
           (\<exists>nx ny. deref st x = Some nx \<and> deref st y = Some ny \<and>
             ((c {x, y} = Some v \<and> c' = c \<and> st' = st)
            \<or> (c {x, y} = None \<and>
                (\<exists>k lo c1 st1 hi c2 st2. n = Suc k
                  \<and> join_c k c I A (if depth nx > depth ny then x else negative nx)
                       (if \<not> depth nx > depth ny \<and> depth ny > depth nx then y else negative ny) st
                     = Inr (lo, c1, st1)
                  \<and> join_c k c1 I A (if depth nx > depth ny then x else positive nx)
                       (if \<not> depth nx > depth ny \<and> depth ny > depth nx then y else positive ny) st1
                     = Inr (hi, c2, st2)
                  \<and> emplace (min (depth nx) (depth ny)) lo hi st2 = Inr (v, st')
                  \<and> c' = c2({x, y} \<mapsto> v))))))"
proof (cases "x = I \<or> y = I \<or> x = A \<or> y = A")
  case True
  with assms show ?thesis
    by (subst (asm) join_c.simps) (auto split: if_splits)
next
  case False
  then have ne: "x \<noteq> I" "y \<noteq> I" "x \<noteq> A" "y \<noteq> A" by auto
  from assms ne obtain nx ny where d: "deref st x = Some nx" "deref st y = Some ny"
    by (subst (asm) join_c.simps) (simp split: option.splits)
  show ?thesis
  proof (cases "c {x, y}")
    case (Some w)
    with assms ne d have "v = w \<and> c' = c \<and> st' = st"
      by (subst (asm) join_c.simps) (simp add: Let_def)
    with Some ne d show ?thesis by simp
  next
    case None
    show ?thesis
    proof (cases n)
      case 0
      with assms ne d None show ?thesis
        by (subst (asm) join_c.simps) (simp add: Let_def)
    next
      case (Suc k)
      with assms ne d None have
        "bindE (join_c k c I A (if depth nx > depth ny then x else negative nx)
                       (if \<not> depth nx > depth ny \<and> depth ny > depth nx then y else negative ny) st)
           (\<lambda>(lo, c1, st1).
            bindE (join_c k c1 I A (if depth nx > depth ny then x else positive nx)
                       (if \<not> depth nx > depth ny \<and> depth ny > depth nx then y else positive ny) st1)
              (\<lambda>(hi, c2, st2).
               bindE (emplace (min (depth nx) (depth ny)) lo hi st2)
                 (\<lambda>(v, st3). Inr (v, c2({x, y} \<mapsto> v), st3)))) = Inr (v, c', st')"
        by (subst (asm) join_c.simps) (simp add: Let_def)
      then obtain lo c1 st1 hi c2 st2 where
        "join_c k c I A (if depth nx > depth ny then x else negative nx)
                       (if \<not> depth nx > depth ny \<and> depth ny > depth nx then y else negative ny) st
                     = Inr (lo, c1, st1)"
        "join_c k c1 I A (if depth nx > depth ny then x else positive nx)
                       (if \<not> depth nx > depth ny \<and> depth ny > depth nx then y else positive ny) st1
                     = Inr (hi, c2, st2)"
        "emplace (min (depth nx) (depth ny)) lo hi st2 = Inr (v, st')"
        "c' = c2({x, y} \<mapsto> v)"
        by (auto simp: bindE_Inr_iff)
      with ne d None Suc show ?thesis by simp
    qed
  qed
qed

lemma invert_c_preserves:
  assumes step: "\<And>d l r st v st'. P st \<Longrightarrow> emplace d l r st = Inr (v, st') \<Longrightarrow> P st'"
  shows "P st \<Longrightarrow> invert_c n c x st = Inr (v, c', st') \<Longrightarrow> P st'"
proof (induction n arbitrary: c x st v c' st')
  case 0
  from invert_c_cases[OF "0.prems"(2)] "0.prems"(1) show ?case by auto
next
  case (Suc n)
  from invert_c_cases[OF Suc.prems(2)] show ?case
  proof (elim disjE conjE exE)
    fix k nd l c1 st1 r c2 st2
    assume k: "Suc n = Suc k"
      and l: "invert_c k c (negative nd) st = Inr (l, c1, st1)"
      and r: "invert_c k c1 (positive nd) st1 = Inr (r, c2, st2)"
      and e: "emplace (depth nd) l r st2 = Inr (v, st')"
    from k have kn: "k = n" by simp
    from Suc.IH[OF Suc.prems(1) l[unfolded kn]] have "P st1" .
    from Suc.IH[OF this r[unfolded kn]] have "P st2" .
    from step[OF this e] show ?thesis .
  qed (use Suc.prems(1) in auto)
qed

lemma join_c_preserves:
  assumes step: "\<And>d l r st v st'. P st \<Longrightarrow> emplace d l r st = Inr (v, st') \<Longrightarrow> P st'"
  shows "P st \<Longrightarrow> join_c n c I A x y st = Inr (v, c', st') \<Longrightarrow> P st'"
proof (induction n arbitrary: c x y st v c' st')
  case 0
  from join_c_cases[OF "0.prems"(2)] "0.prems"(1) show ?case by auto
next
  case (Suc n)
  from join_c_cases[OF Suc.prems(2)] show ?case
  proof (elim disjE conjE exE)
    fix nx ny k lo c1 st1 hi c2 st2
    assume k: "Suc n = Suc k"
      and l: "join_c k c I A (if depth nx > depth ny then x else negative nx)
                       (if \<not> depth nx > depth ny \<and> depth ny > depth nx then y else negative ny) st
                     = Inr (lo, c1, st1)"
      and r: "join_c k c1 I A (if depth nx > depth ny then x else positive nx)
                       (if \<not> depth nx > depth ny \<and> depth ny > depth nx then y else positive ny) st1
                     = Inr (hi, c2, st2)"
      and e: "emplace (min (depth nx) (depth ny)) lo hi st2 = Inr (v, st')"
    from k have kn: "k = n" by simp
    from Suc.IH[OF Suc.prems(1) l[unfolded kn]] have "P st1" .
    from Suc.IH[OF this r[unfolded kn]] have "P st2" .
    from step[OF this e] show ?thesis .
  qed (use Suc.prems(1) in auto)
qed

lemma join_v_preserves:
  assumes step: "\<And>d l r st v st'. P st \<Longrightarrow> emplace d l r st = Inr (v, st') \<Longrightarrow> P st'"
  shows "P st \<Longrightarrow> join_v n I A x y zs st = Inr (v, st') \<Longrightarrow> P st'"
proof (induction zs arbitrary: x y st)
  case Nil
  from Nil.prems(2) obtain c where
    j: "join_c n Map.empty I A x y st = Inr (v, c, st')"
    by (subst (asm) join_v.simps) (auto simp: bindE_Inr_iff)
  from join_c_preserves[of P, OF step Nil.prems(1) j] show ?case .
next
  case (Cons z zs)
  from Cons.prems(2) obtain j c st1 where
    j: "join_c n Map.empty I A x y st = Inr (j, c, st1)" and
    v: "join_v n I A j z zs st1 = Inr (v, st')"
    by (subst (asm) join_v.simps) (auto simp: bindE_Inr_iff)
  from join_c_preserves[of P, OF step Cons.prems(1) j] have "P st1" .
  from Cons.IH[OF this v] show ?case .
qed

lemma emplace_bound:
  assumes "s_factors st = Some s" "l \<noteq> r"
  shows "\<exists>a st'. emplace d l r st = Inr (Addr a, st') \<and> a < length (cells st')
           \<and> cells st' ! a = (s, \<lparr>depth = d, negative = l, positive = r\<rparr>)
           \<and> index_of (s, \<lparr>depth = d, negative = l, positive = r\<rparr>) (cells st') = Some a
           \<and> s_factors st' = Some s
           \<and> (\<exists>ys. cells st' = cells st @ ys
                  \<and> set ys \<subseteq> {(s, \<lparr>depth = d, negative = l, positive = r\<rparr>)})"
proof (cases "index_of (s, \<lparr>depth = d, negative = l, positive = r\<rparr>) (cells st)")
  case None
  with assms show ?thesis
    by (simp add: emplace_def Let_def index_of_snoc nth_append)
next
  case (Some a)
  with assms index_of_Some[OF Some] show ?thesis
    by (simp add: emplace_def Let_def)
qed

lemma emplace_only_into:
  assumes "s_factors st = Some A" "emplace d l r st = Inr (v, st')"
  shows "only_into A st st'"
  using emplace_cases[OF assms(2)] assms(1) by (auto simp: only_into_def)

lemma only_into_refl: "only_into A st st"
  by (simp add: only_into_def)

lemma only_into_trans: "only_into A st st1 \<Longrightarrow> only_into A st1 st2 \<Longrightarrow> only_into A st st2"
  by (auto simp: only_into_def)

lemma emplace_only_into_step:
  assumes "s_factors st = Some A \<and> only_into A st0 st" "emplace d l r st = Inr (v, st')"
  shows "s_factors st' = Some A \<and> only_into A st0 st'"
proof -
  from assms have o: "only_into A st st'" by (auto intro: emplace_only_into)
  with assms(1) show ?thesis by (auto intro: only_into_trans simp: only_into_def)
qed

lemma emplace_reduced: "reduced st \<Longrightarrow> emplace d l r st = Inr (v, st') \<Longrightarrow> reduced st'"
  by (drule emplace_cases) (auto simp: reduced_def)

lemma reachable_reduced: "reachable st \<Longrightarrow> reduced st"
proof (induction rule: reachable.induct)
  case r_init
  then show ?case by (simp add: reduced_def)
next
  case (r_bind st s)
  then show ?case by (simp add: reduced_def bind_def)
next
  case (r_emplace st l r d v st')
  then show ?case by (auto intro: emplace_reduced)
next
  case (r_literal st i b v st')
  then show ?case unfolding literal_def by (auto intro: emplace_reduced)
next
  case (r_invert st x n v st')
  from r_invert.hyps(3) obtain c where "invert_c n Map.empty x st = Inr (v, c, st')"
    by (auto simp: invert_def bindE_Inr_iff)
  from invert_c_preserves[of reduced, OF emplace_reduced r_invert.IH this] show ?case .
next
  case (r_join st I A x y zs n v st')
  from join_v_preserves[of reduced, OF emplace_reduced r_join.IH r_join.hyps(7)] show ?case .
qed

lemma literal_bound:
  assumes "s_factors st = Some s"
  shows "\<exists>a st'. literal i b st = Inr (Addr a, st') \<and> a < length (cells st')
           \<and> cells st' ! a = (s, \<lparr>depth = i, negative = (if b then ZERO else ONE),
                                     positive = (if b then ONE else ZERO)\<rparr>)
           \<and> s_factors st' = Some s
           \<and> (\<forall>ys. literal i b (st'\<lparr>cells := cells st' @ ys\<rparr>)
                      = Inr (Addr a, st'\<lparr>cells := cells st' @ ys\<rparr>))"
proof -
  let ?l = "if \<not> b then ONE else ZERO" and ?r = "if b then ONE else ZERO"
  have ne: "?l \<noteq> ?r" by simp
  from emplace_bound[OF assms ne, of i] obtain a st' where
    e: "emplace i ?l ?r st = Inr (Addr a, st')" and a: "a < length (cells st')"
    and c: "cells st' ! a = (s, \<lparr>depth = i, negative = ?l, positive = ?r\<rparr>)"
    and ix: "index_of (s, \<lparr>depth = i, negative = ?l, positive = ?r\<rparr>) (cells st') = Some a"
    and s: "s_factors st' = Some s" by blast
  have "literal i b (st'\<lparr>cells := cells st' @ ys\<rparr>) = Inr (Addr a, st'\<lparr>cells := cells st' @ ys\<rparr>)" for ys
    using index_of_append[OF ix, of ys] s ne
    by (simp add: literal_def emplace_def Let_def)
  with e a c s show ?thesis
    by (cases b) (auto simp: literal_def)
qed

lemma literal_node:
  assumes "s_factors st = Some s"
  shows "\<exists>a st'. literal i b st = Inr (Addr a, st')
           \<and> deref st' (Addr a) = Some \<lparr>depth = i, negative = (if b then ZERO else ONE),
                                          positive = (if b then ONE else ZERO)\<rparr>
           \<and> (\<forall>ys. literal i b (st'\<lparr>cells := cells st' @ ys\<rparr>)
                      = Inr (Addr a, st'\<lparr>cells := cells st' @ ys\<rparr>))"
proof -
  from literal_bound[OF assms, of i b] obtain a st' where
    "literal i b st = Inr (Addr a, st')" "a < length (cells st')"
    "cells st' ! a = (s, \<lparr>depth = i, negative = (if b then ZERO else ONE),
                                     positive = (if b then ONE else ZERO)\<rparr>)"
    "\<forall>ys. literal i b (st'\<lparr>cells := cells st' @ ys\<rparr>)
                      = Inr (Addr a, st'\<lparr>cells := cells st' @ ys\<rparr>)" by blast
  then show ?thesis by (intro exI[of _ a] exI[of _ st']) (simp add: deref_def)
qed

lemma invert_only_into:
  assumes "s_factors st = Some A" "invert n x st = Inr (v, st')"
  shows "only_into A st st'"
proof -
  from assms(2) obtain c where c: "invert_c n Map.empty x st = Inr (v, c, st')"
    by (auto simp: invert_def bindE_Inr_iff)
  have "s_factors st = Some A \<and> only_into A st st" using assms(1) by (simp add: only_into_refl)
  from invert_c_preserves[of "\<lambda>t. s_factors t = Some A \<and> only_into A st t",
      OF emplace_only_into_step this c]
  show ?thesis by simp
qed

lemma join_v_only_into:
  assumes "s_factors st = Some A" "join_v n I An x y zs st = Inr (v, st')"
  shows "only_into A st st'"
proof -
  have "s_factors st = Some A \<and> only_into A st st" using assms(1) by (simp add: only_into_refl)
  from join_v_preserves[of "\<lambda>t. s_factors t = Some A \<and> only_into A st t",
      OF emplace_only_into_step this assms(2)]
  show ?thesis by simp
qed

lemma only_into_store_nodes:
  assumes "only_into A st st'" "B \<noteq> A"
  shows "store_nodes st' B = store_nodes st B"
  using assms by (fastforce simp: only_into_def store_nodes_def)

lemma denote_Addr:
  assumes "children_before h" "a < length h"
  shows "denote h (Addr a) env =
     (if env (depth (snd (h ! a))) then denote h (positive (snd (h ! a))) env
      else denote h (negative (snd (h ! a))) env)"
  using assms by (simp add: denote.simps(3) children_before_def Let_def)

lemma denote_append:
  "rank r \<le> length h \<Longrightarrow> denote (h @ ys) r env = denote h r env"
proof (induction "rank r" arbitrary: r rule: less_induct)
  case less
  show ?case
  proof (cases r)
    case (Addr a)
    with less.prems have a: "a < length h" by simp
    define c where
      "c = (if env (depth (snd (h ! a))) then positive (snd (h ! a)) else negative (snd (h ! a)))"
    have e1: "denote h (Addr a) env = (if rank c \<le> a then denote h c env else False)"
      unfolding c_def using a by (simp add: denote.simps(3) Let_def)
    have e2: "denote (h @ ys) (Addr a) env = (if rank c \<le> a then denote (h @ ys) c env else False)"
      unfolding c_def using a by (simp add: denote.simps(3) Let_def nth_append)
    show ?thesis
    proof (cases "rank c \<le> a")
      case True
      with a Addr have "rank c < rank r" "rank c \<le> length h" by auto
      from less.hyps[OF this] e1 e2 Addr show ?thesis by simp
    next
      case False
      with e1 e2 Addr show ?thesis by simp
    qed
  qed simp_all
qed

lemma children_before_snoc:
  assumes "children_before h" "rank l \<le> length h" "rank r \<le> length h"
    "set ys \<subseteq> {(s, \<lparr>depth = d, negative = l, positive = r\<rparr>)}"
  shows "children_before (h @ ys)"
  unfolding children_before_def
proof (intro allI impI)
  fix a assume a: "a < length (h @ ys)"
  show "rank (negative (snd ((h @ ys) ! a))) \<le> a \<and> rank (positive (snd ((h @ ys) ! a))) \<le> a"
  proof (cases "a < length h")
    case True
    with assms(1) show ?thesis by (simp add: children_before_def nth_append)
  next
    case False
    with a have "ys ! (a - length h) \<in> set ys" by simp
    with assms(4) have "ys ! (a - length h) = (s, \<lparr>depth = d, negative = l, positive = r\<rparr>)"
      by auto
    with False assms(2,3) show ?thesis by (simp add: nth_append)
  qed
qed

lemma emplace_denote:
  assumes "s_factors st = Some s" "children_before (cells st)"
    "rank lo \<le> length (cells st)" "rank hi \<le> length (cells st)"
  shows "\<exists>v st'. emplace d lo hi st = Inr (v, st') \<and> s_factors st' = Some s
           \<and> (\<exists>ys. cells st' = cells st @ ys) \<and> children_before (cells st')
           \<and> rank v \<le> length (cells st')
           \<and> (\<forall>env. denote (cells st') v env =
                 (if env d then denote (cells st) hi env else denote (cells st) lo env))"
proof (cases "lo = hi")
  case True
  with assms show ?thesis by (simp add: emplace_def)
next
  case False
  from emplace_bound[OF assms(1) False, of d] obtain a st' ys where
    e: "emplace d lo hi st = Inr (Addr a, st')" and a: "a < length (cells st')"
    and c: "cells st' ! a = (s, \<lparr>depth = d, negative = lo, positive = hi\<rparr>)"
    and s: "s_factors st' = Some s"
    and ys: "cells st' = cells st @ ys"
      "set ys \<subseteq> {(s, \<lparr>depth = d, negative = lo, positive = hi\<rparr>)}" by blast
  from children_before_snoc[OF assms(2,3,4) ys(2)] ys(1)
  have cb: "children_before (cells st')" by simp
  have "denote (cells st') (Addr a) env =
        (if env d then denote (cells st) hi env else denote (cells st) lo env)" for env
    using denote_Addr[OF cb a, of env] c ys(1) denote_append[OF assms(3), of ys env]
      denote_append[OF assms(4), of ys env] by simp
  with e a s ys(1) cb show ?thesis by (intro exI[of _ "Addr a"] exI[of _ st']) auto
qed

lemma jcache_ok_append: "jcache_ok I h c \<Longrightarrow> jcache_ok I (h @ ys) c"
  unfolding jcache_ok_def
proof (intro allI impI)
  fix x y v
  assume a: "\<forall>x y v. c {x, y} = Some v \<longrightarrow>
        rank v \<le> length h \<and> rank x \<le> length h \<and> rank y \<le> length h \<and>
        (\<forall>env. denote h v env = bop I (denote h x env) (denote h y env))"
    and c: "c {x, y} = Some v"
  from a c have r: "rank v \<le> length h" "rank x \<le> length h" "rank y \<le> length h"
    and d: "\<forall>env. denote h v env = bop I (denote h x env) (denote h y env)" by blast+
  from r d show "rank v \<le> length (h @ ys) \<and> rank x \<le> length (h @ ys) \<and>
        rank y \<le> length (h @ ys) \<and>
        (\<forall>env. denote (h @ ys) v env = bop I (denote (h @ ys) x env) (denote (h @ ys) y env))"
    by (simp add: denote_append)
qed

lemma jcache_ok_upd:
  assumes "jcache_ok I h c" "rank v \<le> length h" "rank x \<le> length h" "rank y \<le> length h"
    "\<forall>env. denote h v env = bop I (denote h x env) (denote h y env)"
  shows "jcache_ok I h (c({x, y} \<mapsto> v))"
  unfolding jcache_ok_def
proof (intro allI impI)
  fix x' y' v'
  assume h: "(c({x, y} \<mapsto> v)) {x', y'} = Some v'"
  show "rank v' \<le> length h \<and> rank x' \<le> length h \<and> rank y' \<le> length h \<and>
        (\<forall>env. denote h v' env = bop I (denote h x' env) (denote h y' env))"
  proof (cases "{x', y'} = {x, y}")
    case True
    then have "x' = x \<and> y' = y \<or> x' = y \<and> y' = x" by (auto simp: doubleton_eq_iff)
    moreover from True h have "v' = v" by simp
    ultimately show ?thesis using assms(2-5) by (auto simp: bop_def)
  next
    case False
    with h have "c {x', y'} = Some v'" by simp
    with assms(1) show ?thesis unfolding jcache_ok_def by blast
  qed
qed

lemma bop_ident: "I = ONE \<or> I = ZERO \<Longrightarrow> bop I (denote h I env) q = q"
  "I = ONE \<or> I = ZERO \<Longrightarrow> bop I p (denote h I env) = p"
  by (auto simp: bop_def)

lemma bop_antident:
  "I = ONE \<and> A = ZERO \<or> I = ZERO \<and> A = ONE \<Longrightarrow> bop I (denote h A env) q = denote h A env"
  "I = ONE \<and> A = ZERO \<or> I = ZERO \<and> A = ONE \<Longrightarrow> bop I p (denote h A env) = denote h A env"
  by (auto simp: bop_def)

lemma join_c_hit:
  assumes "x \<noteq> I" "y \<noteq> I" "x \<noteq> A" "y \<noteq> A" "deref st x = Some nx" "deref st y = Some ny"
    "c {x, y} = Some v"
  shows "join_c n c I A x y st = Inr (v, c, st)"
  using assms by (subst join_c.simps) (simp add: Let_def)

lemma join_c_miss:
  assumes "x \<noteq> I" "y \<noteq> I" "x \<noteq> A" "y \<noteq> A" "deref st x = Some nx" "deref st y = Some ny"
    "c {x, y} = None"
    "join_c k c I A (if depth nx > depth ny then x else negative nx)
        (if \<not> depth nx > depth ny \<and> depth ny > depth nx then y else negative ny) st
       = Inr (lo, c1, st1)"
    "join_c k c1 I A (if depth nx > depth ny then x else positive nx)
        (if \<not> depth nx > depth ny \<and> depth ny > depth nx then y else positive ny) st1
       = Inr (hi, c2, st2)"
    "emplace (min (depth nx) (depth ny)) lo hi st2 = Inr (v, st3)"
  shows "join_c (Suc k) c I A x y st = Inr (v, c2({x, y} \<mapsto> v), st3)"
  using assms by (subst join_c.simps) (simp add: Let_def)

lemma deref_Addr: "a < length (cells st) \<Longrightarrow> deref st (Addr a) = Some (snd (cells st ! a))"
  by (simp add: deref_def)

lemma join_c_correct:
  assumes IA: "I = ONE \<and> A = ZERO \<or> I = ZERO \<and> A = ONE"
  shows "s_factors st = Some s \<Longrightarrow> children_before (cells st)
    \<Longrightarrow> rank x \<le> length (cells st) \<Longrightarrow> rank y \<le> length (cells st)
    \<Longrightarrow> jcache_ok I (cells st) c \<Longrightarrow> rank x + rank y \<le> n
    \<Longrightarrow> join_ok s I st x y (join_c n c I A x y st)"
proof (induction n arbitrary: x y c st rule: less_induct)
  case (less n)
  note bound = less.prems(1) and cb = less.prems(2) and rx = less.prems(3)
    and ry = less.prems(4) and co = less.prems(5) and fuel = less.prems(6)
  let ?h = "cells st"
  consider (xi) "x = I" | (yi) "x \<noteq> I" "y = I" | (an) "x \<noteq> I" "y \<noteq> I" "x = A \<or> y = A"
    | (rec) "x \<noteq> I" "y \<noteq> I" "x \<noteq> A" "y \<noteq> A" by blast
  then show ?case
  proof cases
    case xi
    then have "join_c n c I A x y st = Inr (y, c, st)" by (subst join_c.simps) simp
    with xi IA bound cb ry co show ?thesis
      unfolding join_ok_def by (auto simp: bop_def)
  next
    case yi
    then have "join_c n c I A x y st = Inr (x, c, st)" by (subst join_c.simps) simp
    with yi IA bound cb rx co show ?thesis
      unfolding join_ok_def by (auto simp: bop_def)
  next
    case an
    then have "join_c n c I A x y st = Inr (A, c, st)" by (subst join_c.simps) simp
    moreover have "rank A \<le> length ?h" using IA by auto
    moreover have "denote ?h A env = bop I (denote ?h x env) (denote ?h y env)" for env
      using an IA by (auto simp: bop_def)
    ultimately show ?thesis using bound cb co
      unfolding join_ok_def by auto
  next
    case rec
    with IA obtain ax ay where xy: "x = Addr ax" "y = Addr ay"
      by (cases x; cases y) auto
    with rx ry have ax: "ax < length ?h" and ay: "ay < length ?h" by simp_all
    define nx where "nx = snd (?h ! ax)"
    define ny where "ny = snd (?h ! ay)"
    have dx: "deref st x = Some nx" and dy: "deref st y = Some ny"
      using ax ay xy by (simp_all add: deref_Addr nx_def ny_def)
    show ?thesis
    proof (cases "c {x, y}")
      case (Some v)
      from join_c_hit[where c = c and x = x and y = y, OF rec dx dy Some]
      have "join_c n c I A x y st = Inr (v, c, st)" .
      moreover from co Some have "rank v \<le> length ?h"
        "\<forall>env. denote ?h v env = bop I (denote ?h x env) (denote ?h y env)"
        unfolding jcache_ok_def by blast+
      ultimately show ?thesis using bound cb co unfolding join_ok_def by auto
    next
      case None
      from cb ax ay have kids:
        "rank (negative nx) \<le> ax" "rank (positive nx) \<le> ax"
        "rank (negative ny) \<le> ay" "rank (positive ny) \<le> ay"
        by (simp_all add: children_before_def nx_def ny_def)
      define xl where "xl = (if depth nx > depth ny then x else negative nx)"
      define yl where "yl = (if \<not> depth nx > depth ny \<and> depth ny > depth nx then y else negative ny)"
      define xr where "xr = (if depth nx > depth ny then x else positive nx)"
      define yr where "yr = (if \<not> depth nx > depth ny \<and> depth ny > depth nx then y else positive ny)"
      from fuel xy obtain k where n: "n = Suc k" and k: "Suc ax + ay \<le> k"
        by (cases n) auto
      have rl: "rank xl \<le> length ?h" "rank yl \<le> length ?h" "rank xl + rank yl \<le> k"
        using kids ax ay xy k by (auto simp: xl_def yl_def)
      have rr: "rank xr \<le> length ?h" "rank yr \<le> length ?h" "rank xr + rank yr \<le> k"
        using kids ax ay xy k by (auto simp: xr_def yr_def)
      have "k < n" using n by simp
      from less.IH[OF this bound cb rl(1,2) co rl(3)]
      obtain lo c1 st1 ys1 where
        j1: "join_c k c I A xl yl st = Inr (lo, c1, st1)" and b1: "s_factors st1 = Some s"
        and e1: "cells st1 = ?h @ ys1" and cb1: "children_before (cells st1)"
        and r1: "rank lo \<le> length (cells st1)" and co1: "jcache_ok I (cells st1) c1"
        and d1: "\<forall>env. denote (cells st1) lo env = bop I (denote ?h xl env) (denote ?h yl env)"
        unfolding join_ok_def by blast
      have rr1: "rank xr \<le> length (cells st1)" "rank yr \<le> length (cells st1)"
        using rr e1 by simp_all
      from less.IH[OF \<open>k < n\<close> b1 cb1 rr1 co1 rr(3)]
      obtain hi c2 st2 ys2 where
        j2: "join_c k c1 I A xr yr st1 = Inr (hi, c2, st2)" and b2: "s_factors st2 = Some s"
        and e2: "cells st2 = cells st1 @ ys2" and cb2: "children_before (cells st2)"
        and r2: "rank hi \<le> length (cells st2)" and co2: "jcache_ok I (cells st2) c2"
        and d2: "\<forall>env. denote (cells st2) hi env
                   = bop I (denote (cells st1) xr env) (denote (cells st1) yr env)"
        unfolding join_ok_def by blast
      have r1': "rank lo \<le> length (cells st2)" using r1 e2 by simp
      from emplace_denote[OF b2 cb2 r1' r2, of "min (depth nx) (depth ny)"]
      obtain v st3 ys3 where
        e: "emplace (min (depth nx) (depth ny)) lo hi st2 = Inr (v, st3)"
        and b3: "s_factors st3 = Some s" and e3: "cells st3 = cells st2 @ ys3"
        and cb3: "children_before (cells st3)" and r3: "rank v \<le> length (cells st3)"
        and d3: "\<forall>env. denote (cells st3) v env =
                 (if env (min (depth nx) (depth ny)) then denote (cells st2) hi env
                  else denote (cells st2) lo env)"
        by blast
      from join_c_miss[where c = c and x = x and y = y, OF rec dx dy None
          j1[unfolded xl_def yl_def] j2[unfolded xr_def yr_def] e]
      have res: "join_c n c I A x y st = Inr (v, c2({x, y} \<mapsto> v), st3)"
        unfolding n .
      have ext: "cells st3 = ?h @ (ys1 @ ys2 @ ys3)" using e1 e2 e3 by simp
      have hi_eq: "denote (cells st2) hi env = bop I (denote ?h xr env) (denote ?h yr env)" for env
        using d2 rr(1,2) by (simp add: e1 denote_append)
      have lo_eq: "denote (cells st2) lo env = bop I (denote ?h xl env) (denote ?h yl env)" for env
        using d1 r1 by (simp add: e2 denote_append)
      have x_eq: "denote ?h x env = (if env (depth nx) then denote ?h (positive nx) env
                                     else denote ?h (negative nx) env)" for env
        using denote_Addr[OF cb ax] by (simp add: xy nx_def)
      have y_eq: "denote ?h y env = (if env (depth ny) then denote ?h (positive ny) env
                                     else denote ?h (negative ny) env)" for env
        using denote_Addr[OF cb ay] by (simp add: xy ny_def)
      have sem: "denote (cells st3) v env = bop I (denote ?h x env) (denote ?h y env)" for env
      proof -
        consider (gt) "depth nx > depth ny" | (lt) "depth ny > depth nx" | (eq) "depth nx = depth ny"
          by (metis linorder_neqE)
        then show ?thesis
        proof cases
          case gt
          then have m: "min (depth nx) (depth ny) = depth ny" by simp
          from gt have v: "xl = x" "xr = x" "yl = negative ny" "yr = positive ny"
            by (simp_all add: xl_def xr_def yl_def yr_def)
          show ?thesis using d3 by (simp add: m hi_eq lo_eq v y_eq)
        next
          case lt
          then have m: "min (depth nx) (depth ny) = depth nx" by simp
          from lt have "\<not> depth ny < depth nx" by simp
          with lt have v: "xl = negative nx" "xr = positive nx" "yl = y" "yr = y"
            by (simp_all add: xl_def xr_def yl_def yr_def)
          show ?thesis using d3 by (simp add: m hi_eq lo_eq v x_eq)
        next
          case eq
          then have m: "min (depth nx) (depth ny) = depth nx" by simp
          from eq have v: "xl = negative nx" "xr = positive nx" "yl = negative ny" "yr = positive ny"
            by (simp_all add: xl_def xr_def yl_def yr_def)
          show ?thesis using d3 by (simp add: m hi_eq lo_eq v x_eq y_eq eq)
        qed
      qed
      have rx3: "rank x \<le> length (cells st3)" "rank y \<le> length (cells st3)"
        using rx ry ext by simp_all
      have sem3: "\<forall>env. denote (cells st3) v env
            = bop I (denote (cells st3) x env) (denote (cells st3) y env)"
        using sem rx ry by (simp add: ext denote_append)
      have "jcache_ok I (cells st3) c2" using co2 by (simp add: e3 jcache_ok_append)
      from jcache_ok_upd[OF this r3 rx3 sem3]
      have co3: "jcache_ok I (cells st3) (c2({x, y} \<mapsto> v))" .
      show ?thesis unfolding join_ok_def
        using res b3 ext cb3 r3 co3 sem by blast
    qed
  qed
qed

lemma valid_ref_rank: "valid_ref st r \<longleftrightarrow> rank r \<le> length (cells st)"
  by (cases r) (auto simp: valid_ref_def)

lemma children_before_kids:
  assumes "children_before h" "a < length h"
  shows "rank (negative (snd (h ! a))) \<le> length h" "rank (positive (snd (h ! a))) \<le> length h"
  using assms unfolding children_before_def by (metis le_trans less_imp_le_nat)+

lemma emplace_valid:
  assumes "children_before (cells st)" "rank l \<le> length (cells st)" "rank r \<le> length (cells st)"
    "emplace d l r st = Inr (v, st')"
  shows "children_before (cells st') \<and> (\<exists>ys. cells st' = cells st @ ys)
       \<and> rank v \<le> length (cells st')"
proof -
  from emplace_cases[OF assms(4)] show ?thesis
  proof (elim disjE conjE exE)
    assume "l = r" "v = l" "st' = st"
    with assms show ?thesis by simp
  next
    fix s a
    assume ix: "index_of (s, \<lparr>depth = d, negative = l, positive = r\<rparr>) (cells st) = Some a"
      and "v = Addr a" "st' = st"
    with assms(1) index_of_Some[OF ix] show ?thesis by auto
  next
    fix s
    assume "v = Addr (length (cells st))"
      "st' = st\<lparr>cells := cells st @ [(s, \<lparr>depth = d, negative = l, positive = r\<rparr>)]\<rparr>"
    with children_before_snoc[OF assms(1,2,3),
        of "[(s, \<lparr>depth = d, negative = l, positive = r\<rparr>)]" s d]
    show ?thesis by simp
  qed
qed

lemma cache_valid_upd:
  assumes "\<forall>k w. c k = Some w \<longrightarrow> rank w \<le> n" "n \<le> m" "rank v \<le> m"
  shows "\<forall>k w. (c(key \<mapsto> v)) k = Some w \<longrightarrow> rank w \<le> m"
proof (intro allI impI)
  fix k w assume h: "(c(key \<mapsto> v)) k = Some w"
  show "rank w \<le> m"
  proof (cases "k = key")
    case True
    with h assms(3) show ?thesis by simp
  next
    case False
    with h have "c k = Some w" by simp
    with assms(1,2) show ?thesis using le_trans by blast
  qed
qed

lemma emplace_distinct:
  "distinct (cells st) \<Longrightarrow> emplace d l r st = Inr (v, st') \<Longrightarrow> distinct (cells st')"
  by (drule emplace_cases) (auto simp: index_of_None)

lemma invert_c_valid:
  "children_before (cells st) \<Longrightarrow> rank x \<le> length (cells st)
   \<Longrightarrow> \<forall>k w. c k = Some w \<longrightarrow> rank w \<le> length (cells st)
   \<Longrightarrow> invert_c n c x st = Inr (v, c', st')
   \<Longrightarrow> children_before (cells st') \<and> (\<exists>ys. cells st' = cells st @ ys)
       \<and> rank v \<le> length (cells st')
       \<and> (\<forall>k w. c' k = Some w \<longrightarrow> rank w \<le> length (cells st'))"
proof (induction n arbitrary: c x st v c' st')
  case 0
  from invert_c_cases[OF "0.prems"(4)] "0.prems"(1-3) show ?case by auto
next
  case (Suc n)
  from invert_c_cases[OF Suc.prems(4)] show ?case
  proof (elim disjE conjE exE)
    fix k nd l c1 st1 r c2 st2
    assume k: "Suc n = Suc k" and xn: "x \<noteq> ZERO" "x \<noteq> ONE"
      and d: "deref st x = Some nd"
      and l: "invert_c k c (negative nd) st = Inr (l, c1, st1)"
      and r: "invert_c k c1 (positive nd) st1 = Inr (r, c2, st2)"
      and e: "emplace (depth nd) l r st2 = Inr (v, st')"
      and c': "c' = c2(x \<mapsto> v)"
    from k have kn: "k = n" by simp
    from xn d obtain a where a: "x = Addr a" "a < length (cells st)" "nd = snd (cells st ! a)"
      by (cases x) (auto simp: deref_def split: if_splits)
    with children_before_kids[OF Suc.prems(1), of a]
    have kids: "rank (negative nd) \<le> length (cells st)"
      "rank (positive nd) \<le> length (cells st)"
      by simp_all
    from Suc.IH[OF Suc.prems(1) kids(1) Suc.prems(3) l[unfolded kn]]
    obtain ys1 where 1: "children_before (cells st1)" "cells st1 = cells st @ ys1"
      "rank l \<le> length (cells st1)" "\<forall>k w. c1 k = Some w \<longrightarrow> rank w \<le> length (cells st1)"
      by blast
    from kids(2) 1(2) have "rank (positive nd) \<le> length (cells st1)" by simp
    from Suc.IH[OF 1(1) this 1(4) r[unfolded kn]]
    obtain ys2 where 2: "children_before (cells st2)" "cells st2 = cells st1 @ ys2"
      "rank r \<le> length (cells st2)" "\<forall>k w. c2 k = Some w \<longrightarrow> rank w \<le> length (cells st2)"
      by blast
    from 1(3) 2(2) have "rank l \<le> length (cells st2)" by simp
    from emplace_valid[OF 2(1) this 2(3) e]
    obtain ys3 where 3: "children_before (cells st')" "cells st' = cells st2 @ ys3"
      "rank v \<le> length (cells st')" by blast
    have "cells st' = cells st @ (ys1 @ ys2 @ ys3)" using 1(2) 2(2) 3(2) by simp
    moreover have "\<forall>k w. c' k = Some w \<longrightarrow> rank w \<le> length (cells st')"
      unfolding c' by (rule cache_valid_upd[OF 2(4) _ 3(3)]) (simp add: 3(2))
    ultimately show ?thesis using 3(1,3) by blast
  qed (use Suc.prems(1-3) in auto)
qed

lemma join_c_valid:
  "children_before (cells st) \<Longrightarrow> rank x \<le> length (cells st) \<Longrightarrow> rank y \<le> length (cells st)
   \<Longrightarrow> rank A \<le> length (cells st)
   \<Longrightarrow> \<forall>k w. c k = Some w \<longrightarrow> rank w \<le> length (cells st)
   \<Longrightarrow> join_c n c I A x y st = Inr (v, c', st')
   \<Longrightarrow> children_before (cells st') \<and> (\<exists>ys. cells st' = cells st @ ys)
       \<and> rank v \<le> length (cells st')
       \<and> (\<forall>k w. c' k = Some w \<longrightarrow> rank w \<le> length (cells st'))"
proof (induction n arbitrary: c x y st v c' st')
  case 0
  from join_c_cases[OF "0.prems"(6)] "0.prems"(1-5) show ?case by auto
next
  case (Suc n)
  from join_c_cases[OF Suc.prems(6)] show ?case
  proof (elim disjE conjE exE)
    fix nx ny k lo c1 st1 hi c2 st2
    assume k: "Suc n = Suc k"
      and dx: "deref st x = Some nx" and dy: "deref st y = Some ny"
      and l: "join_c k c I A (if depth nx > depth ny then x else negative nx)
                       (if \<not> depth nx > depth ny \<and> depth ny > depth nx then y else negative ny) st
                     = Inr (lo, c1, st1)"
      and r: "join_c k c1 I A (if depth nx > depth ny then x else positive nx)
                       (if \<not> depth nx > depth ny \<and> depth ny > depth nx then y else positive ny) st1
                     = Inr (hi, c2, st2)"
      and e: "emplace (min (depth nx) (depth ny)) lo hi st2 = Inr (v, st')"
      and c': "c' = c2({x, y} \<mapsto> v)"
    from k have kn: "k = n" by simp
    from dx obtain a where a: "x = Addr a" "a < length (cells st)" "nx = snd (cells st ! a)"
      by (cases x) (auto simp: deref_def split: if_splits)
    from dy obtain b where b: "y = Addr b" "b < length (cells st)" "ny = snd (cells st ! b)"
      by (cases y) (auto simp: deref_def split: if_splits)
    from children_before_kids[OF Suc.prems(1), of a] children_before_kids[OF Suc.prems(1), of b]
      a b
    have kids: "rank (negative nx) \<le> length (cells st)"
      "rank (positive nx) \<le> length (cells st)" "rank (negative ny) \<le> length (cells st)"
      "rank (positive ny) \<le> length (cells st)"
      by simp_all
    have rl: "rank (if depth nx > depth ny then x else negative nx) \<le> length (cells st)"
      "rank (if \<not> depth nx > depth ny \<and> depth ny > depth nx then y else negative ny)
         \<le> length (cells st)"
      using kids Suc.prems(2,3) by auto
    have rr: "rank (if depth nx > depth ny then x else positive nx) \<le> length (cells st)"
      "rank (if \<not> depth nx > depth ny \<and> depth ny > depth nx then y else positive ny)
         \<le> length (cells st)"
      using kids Suc.prems(2,3) by auto
    from Suc.IH[OF Suc.prems(1) rl Suc.prems(4,5) l[unfolded kn]]
    obtain ys1 where 1: "children_before (cells st1)" "cells st1 = cells st @ ys1"
      "rank lo \<le> length (cells st1)" "\<forall>k w. c1 k = Some w \<longrightarrow> rank w \<le> length (cells st1)"
      by blast
    have rr1: "rank (if depth nx > depth ny then x else positive nx) \<le> length (cells st1)"
      "rank (if \<not> depth nx > depth ny \<and> depth ny > depth nx then y else positive ny)
         \<le> length (cells st1)" "rank A \<le> length (cells st1)"
      using rr Suc.prems(4) 1(2) by auto
    from Suc.IH[OF 1(1) rr1 1(4) r[unfolded kn]]
    obtain ys2 where 2: "children_before (cells st2)" "cells st2 = cells st1 @ ys2"
      "rank hi \<le> length (cells st2)" "\<forall>k w. c2 k = Some w \<longrightarrow> rank w \<le> length (cells st2)"
      by blast
    from 1(3) 2(2) have "rank lo \<le> length (cells st2)" by simp
    from emplace_valid[OF 2(1) this 2(3) e]
    obtain ys3 where 3: "children_before (cells st')" "cells st' = cells st2 @ ys3"
      "rank v \<le> length (cells st')" by blast
    have "cells st' = cells st @ (ys1 @ ys2 @ ys3)" using 1(2) 2(2) 3(2) by simp
    moreover have "\<forall>k w. c' k = Some w \<longrightarrow> rank w \<le> length (cells st')"
      unfolding c' by (rule cache_valid_upd[OF 2(4) _ 3(3)]) (simp add: 3(2))
    ultimately show ?thesis using 3(1,3) by blast
  qed (use Suc.prems(1-5) in auto)
qed

lemma join_v_valid:
  "children_before (cells st) \<Longrightarrow> rank x \<le> length (cells st) \<Longrightarrow> rank y \<le> length (cells st)
   \<Longrightarrow> rank A \<le> length (cells st) \<Longrightarrow> \<forall>z\<in>set zs. rank z \<le> length (cells st)
   \<Longrightarrow> join_v n I A x y zs st = Inr (v, st')
   \<Longrightarrow> children_before (cells st') \<and> (\<exists>ys. cells st' = cells st @ ys)
       \<and> rank v \<le> length (cells st')"
proof (induction zs arbitrary: x y st)
  case Nil
  from Nil.prems(6) obtain c where
    j: "join_c n Map.empty I A x y st = Inr (v, c, st')"
    by (subst (asm) join_v.simps) (auto simp: bindE_Inr_iff)
  from join_c_valid[OF Nil.prems(1-4) _ j] show ?case by simp
next
  case (Cons z zs)
  from Cons.prems(6) obtain j c st1 where
    j: "join_c n Map.empty I A x y st = Inr (j, c, st1)" and
    v: "join_v n I A j z zs st1 = Inr (v, st')"
    by (subst (asm) join_v.simps) (auto simp: bindE_Inr_iff)
  from join_c_valid[OF Cons.prems(1-4) _ j]
  obtain ys1 where 1: "children_before (cells st1)" "cells st1 = cells st @ ys1"
    "rank j \<le> length (cells st1)" by auto
  from Cons.prems(4,5) 1(2) have 2: "rank z \<le> length (cells st1)" "rank A \<le> length (cells st1)"
    "\<forall>z\<in>set zs. rank z \<le> length (cells st1)" by auto
  from Cons.IH[OF 1(1) 1(3) 2 v]
  obtain ys2 where "children_before (cells st')" "cells st' = cells st1 @ ys2"
    "rank v \<le> length (cells st')" by blast
  with 1(2) show ?case by simp
qed

lemma emplace_heap_inv:
  assumes "heap_inv st" "rank l \<le> length (cells st)" "rank r \<le> length (cells st)"
    "emplace d l r st = Inr (v, st')"
  shows "heap_inv st'"
  using assms emplace_valid[OF _ assms(2,3,4)] emplace_distinct[OF _ assms(4)]
    emplace_reduced[OF _ assms(4)]
  by (simp add: heap_inv_def)

lemma reachable_heap_inv: "reachable st \<Longrightarrow> heap_inv st"
proof (induction rule: reachable.induct)
  case r_init
  then show ?case by (simp add: heap_inv_def reduced_def children_before_def)
next
  case (r_bind st s)
  then show ?case by (simp add: heap_inv_def reduced_def bind_def)
next
  case (r_emplace st l r d v st')
  then show ?case by (auto intro: emplace_heap_inv simp: valid_ref_rank)
next
  case (r_literal st i b v st')
  from r_literal.hyps(2) have "emplace i (if \<not> b then ONE else ZERO) (if b then ONE else ZERO) st
      = Inr (v, st')" by (simp add: literal_def)
  from emplace_heap_inv[OF r_literal.IH _ _ this] show ?case by simp
next
  case (r_invert st x n v st')
  from r_invert.hyps(3) obtain c where c: "invert_c n Map.empty x st = Inr (v, c, st')"
    by (auto simp: invert_def bindE_Inr_iff)
  from r_invert.IH have i: "children_before (cells st)" "distinct (cells st)" "reduced st"
    by (simp_all add: heap_inv_def)
  from r_invert.hyps(2) have x: "rank x \<le> length (cells st)" by (simp add: valid_ref_rank)
  from invert_c_valid[OF i(1) x _ c] have "children_before (cells st')" by simp
  moreover from invert_c_preserves[of "\<lambda>t. distinct (cells t)", OF emplace_distinct i(2) c]
  have "distinct (cells st')" .
  moreover from invert_c_preserves[of reduced, OF emplace_reduced i(3) c] have "reduced st'" .
  ultimately show ?case by (simp add: heap_inv_def)
next
  case (r_join st I A x y zs n v st')
  from r_join.IH have i: "children_before (cells st)" "distinct (cells st)" "reduced st"
    by (simp_all add: heap_inv_def)
  from r_join.hyps(3,4,5,6) have x: "rank x \<le> length (cells st)" "rank y \<le> length (cells st)"
    "rank A \<le> length (cells st)" "\<forall>z\<in>set zs. rank z \<le> length (cells st)"
    by (simp_all add: valid_ref_rank)
  from join_v_valid[OF i(1) x r_join.hyps(7)] have "children_before (cells st')" by simp
  moreover from join_v_preserves[of "\<lambda>t. distinct (cells t)", OF emplace_distinct i(2)
      r_join.hyps(7)]
  have "distinct (cells st')" .
  moreover from join_v_preserves[of reduced, OF emplace_reduced i(3) r_join.hyps(7)]
  have "reduced st'" .
  ultimately show ?case by (simp add: heap_inv_def)
qed

lemma emplace_s_factors:
  "s_factors st = Some s \<Longrightarrow> emplace d l r st = Inr (v, st') \<Longrightarrow> s_factors st' = Some s"
  by (drule emplace_cases) auto

lemma emplace_total: "s_factors st = Some s \<Longrightarrow> \<exists>v st'. emplace d l r st = Inr (v, st')"
  by (cases "l = r") (auto simp: emplace_def Let_def split: option.splits)

lemma invert_c_miss:
  assumes "x \<noteq> ZERO" "x \<noteq> ONE" "c x = None" "deref st x = Some nd"
    "invert_c k c (negative nd) st = Inr (l, c1, st1)"
    "invert_c k c1 (positive nd) st1 = Inr (r, c2, st2)"
    "emplace (depth nd) l r st2 = Inr (v, st3)"
  shows "invert_c (Suc k) c x st = Inr (v, c2(x \<mapsto> v), st3)"
  using assms by (subst invert_c.simps) simp

lemma invert_c_hit:
  assumes "x \<noteq> ZERO" "x \<noteq> ONE" "c x = Some v"
  shows "invert_c n c x st = Inr (v, c, st)"
  using assms by (subst invert_c.simps) simp

lemma invert_c_total:
  "s_factors st = Some s \<Longrightarrow> children_before (cells st) \<Longrightarrow> rank x \<le> length (cells st)
   \<Longrightarrow> \<forall>k w. c k = Some w \<longrightarrow> rank w \<le> length (cells st) \<Longrightarrow> rank x \<le> n
   \<Longrightarrow> \<exists>v c' st'. invert_c n c x st = Inr (v, c', st')"
proof (induction n arbitrary: x c st rule: less_induct)
  case (less n)
  note bound = less.prems(1) and cb = less.prems(2) and rx = less.prems(3)
    and cv = less.prems(4) and fuel = less.prems(5)
  show ?case
  proof (cases x)
    case ZERO
    then show ?thesis by (subst invert_c.simps) simp
  next
    case ONE
    then show ?thesis by (subst invert_c.simps) simp
  next
    case (Addr a)
    with rx have a: "a < length (cells st)" by simp
    define nd where "nd = snd (cells st ! a)"
    have d: "deref st x = Some nd" using a Addr by (simp add: deref_Addr nd_def)
    have xn: "x \<noteq> ZERO" "x \<noteq> ONE" using Addr by simp_all
    show ?thesis
    proof (cases "c x")
      case (Some v)
      from invert_c_hit[where c = c, OF xn Some] show ?thesis by blast
    next
      case None
      from fuel Addr obtain k where n: "n = Suc k" and k: "a \<le> k" by (cases n) auto
      from cb a have kids: "rank (negative nd) \<le> a" "rank (positive nd) \<le> a"
        by (simp_all add: children_before_def nd_def)
      have kn: "k < n" using n by simp
      from kids a k have l0: "rank (negative nd) \<le> length (cells st)" "rank (negative nd) \<le> k"
        by simp_all
      from less.IH[OF kn bound cb l0(1) cv l0(2)]
      obtain l c1 st1 where l: "invert_c k c (negative nd) st = Inr (l, c1, st1)" by blast
      from invert_c_preserves[of "\<lambda>t. s_factors t = Some s", OF emplace_s_factors bound l]
      have b1: "s_factors st1 = Some s" .
      from invert_c_valid[OF cb l0(1) cv l]
      obtain ys1 where 1: "children_before (cells st1)" "cells st1 = cells st @ ys1"
        "\<forall>k w. c1 k = Some w \<longrightarrow> rank w \<le> length (cells st1)" by blast
      from kids a k 1(2) have r0: "rank (positive nd) \<le> length (cells st1)"
        "rank (positive nd) \<le> k" by simp_all
      from less.IH[OF kn b1 1(1) r0(1) 1(3) r0(2)]
      obtain r c2 st2 where r: "invert_c k c1 (positive nd) st1 = Inr (r, c2, st2)" by blast
      from invert_c_preserves[of "\<lambda>t. s_factors t = Some s", OF emplace_s_factors b1 r]
      have b2: "s_factors st2 = Some s" .
      from emplace_total[OF b2] obtain v st3 where
        e: "emplace (depth nd) l r st2 = Inr (v, st3)" by blast
      from invert_c_miss[where c = c, OF xn None d l r e] show ?thesis unfolding n by blast
    qed
  qed
qed

lemma reachable_ex_lit: "reachable ex_lit"
proof -
  have "reachable (snd (bind (Some 0) \<lparr>cells = [], s_factors = None\<rparr>))"
    by (rule r_bind[OF r_init])
  moreover have "literal 0 True (snd (bind (Some 0) \<lparr>cells = [], s_factors = None\<rparr>)) = Inr (Addr 0, ex_lit)"
    by (simp add: literal_def emplace_def bind_def ex_lit_def)
  ultimately show ?thesis by (rule r_literal)
qed

lemma reachable_ex_two: "reachable ex_two"
proof -
  have "literal 1 False ex_lit = Inr (Addr 1, ex_two)"
    by (simp add: literal_def emplace_def ex_lit_def ex_two_def)
  with reachable_ex_lit show ?thesis by (rule r_literal)
qed

lemma join_v_binary:
  "join_c n Map.empty I A x y st = Inr (v, c, st') \<Longrightarrow> join_v n I A x y [] st = Inr (v, st')"
  by (subst join_v.simps) simp

lemma join_binary_denotes:
  assumes IA: "I = ONE \<and> A = ZERO \<or> I = ZERO \<and> A = ONE"
    and "reachable st" "s_factors st = Some s" "valid_ref st x" "valid_ref st y"
    "rank x + rank y \<le> fuel"
  shows "\<exists>v st'. join_v fuel I A x y [] st = Inr (v, st') \<and> valid_ref st' v \<and>
           (\<forall>env. denote (cells st') v env
                    = bop I (denote (cells st') x env) (denote (cells st') y env)
                \<and> denote (cells st') x env = denote (cells st) x env
                \<and> denote (cells st') y env = denote (cells st) y env)"
proof -
  from reachable_heap_inv[OF assms(2)] have cb: "children_before (cells st)"
    by (simp add: heap_inv_def)
  from assms(4,5) have r: "rank x \<le> length (cells st)" "rank y \<le> length (cells st)"
    by (simp_all add: valid_ref_rank)
  have co: "jcache_ok I (cells st) Map.empty" by (simp add: jcache_ok_def)
  from join_c_correct[OF IA assms(3) cb r co assms(6)]
  obtain v c' st' ys where j: "join_c fuel Map.empty I A x y st = Inr (v, c', st')"
    and e: "cells st' = cells st @ ys" and rv: "rank v \<le> length (cells st')"
    and d: "\<forall>env. denote (cells st') v env
               = bop I (denote (cells st) x env) (denote (cells st) y env)"
    unfolding join_ok_def by blast
  from r e have "denote (cells st') x env = denote (cells st) x env"
    "denote (cells st') y env = denote (cells st) y env" for env
    by (simp_all add: denote_append)
  with d rv join_v_binary[OF j] show ?thesis
    by (intro exI[of _ v] exI[of _ st']) (simp add: valid_ref_rank)
qed

lemma in_store_Addr:
  "in_store h s (Addr a) \<longleftrightarrow>
     a < length h \<and> fst (h ! a) = s \<and> rank (negative (snd (h ! a))) \<le> a
       \<and> rank (positive (snd (h ! a))) \<le> a
       \<and> in_store h s (negative (snd (h ! a))) \<and> in_store h s (positive (snd (h ! a)))"
  by (auto simp: in_store.simps(3))

lemma in_store_valid: "in_store h s r \<Longrightarrow> rank r \<le> length h"
  by (cases r) (simp_all add: in_store_Addr)

lemma in_store_append: "in_store h s r \<Longrightarrow> in_store (h @ ys) s r"
proof (induction "rank r" arbitrary: r rule: less_induct)
  case less
  show ?case
  proof (cases r)
    case (Addr a)
    with less.prems have a: "a < length h" "fst (h ! a) = s"
      "rank (negative (snd (h ! a))) \<le> a" "rank (positive (snd (h ! a))) \<le> a"
      "in_store h s (negative (snd (h ! a)))" "in_store h s (positive (snd (h ! a)))"
      by (simp_all add: in_store_Addr)
    from a(3,4) Addr have "rank (negative (snd (h ! a))) < rank r"
      "rank (positive (snd (h ! a))) < rank r" by simp_all
    from less.hyps[OF this(1) a(5)] less.hyps[OF this(2) a(6)] a Addr show ?thesis
      by (simp add: in_store_Addr nth_append)
  qed simp_all
qed

lemma inv_rel_sym: "inv_rel h s x y \<Longrightarrow> inv_rel h s y x"
  by (induction rule: inv_rel.induct) (auto intro: inv_rel.intros)

lemma inv_rel_append: "inv_rel h s x y \<Longrightarrow> inv_rel (h @ ys) s x y"
proof (induction rule: inv_rel.induct)
  case (ir_node a b na nb)
  then show ?case
    by (intro inv_rel.ir_node[of a _ b _ na nb]) (simp_all add: nth_append)
qed (auto intro: inv_rel.intros)

lemma inv_rel_fun:
  assumes "distinct h"
  shows "inv_rel h s x y \<Longrightarrow> inv_rel h s x y' \<Longrightarrow> y = y'"
proof (induction arbitrary: y' rule: inv_rel.induct)
  case ir_zero
  then show ?case by (auto elim: inv_rel_ZERO)
next
  case ir_one
  then show ?case by (auto elim: inv_rel_ONE)
next
  case (ir_node a b na nb)
  from ir_node.prems show ?case
  proof (rule inv_rel_Addr)
    fix b' na' nb'
    assume y': "y' = Addr b'" and b': "b' < length h" and ha: "h ! a = (s, na')"
      and hb: "h ! b' = (s, nb')" and d: "depth na' = depth nb'"
      and l: "inv_rel h s (negative na') (negative nb')"
      and r: "inv_rel h s (positive na') (positive nb')"
    from ha ir_node.hyps(3) have na: "na' = na" by simp
    from ir_node.IH(1)[OF l[unfolded na]] ir_node.IH(2)[OF r[unfolded na]] d na ir_node.hyps(5)
    have "nb = nb'" by simp
    with hb ir_node.hyps(4) have "h ! b = h ! b'" by simp
    with assms ir_node.hyps(2) b' have "b = b'" by (simp add: nth_eq_iff_index_eq)
    with y' show ?thesis by simp
  qed
qed

lemma inv_rel_in_store:
  assumes "children_before h"
  shows "inv_rel h s x y \<Longrightarrow> in_store h s x \<and> in_store h s y"
proof (induction rule: inv_rel.induct)
  case (ir_node a b na nb)
  from assms ir_node.hyps(1,2,3,4) have "rank (negative na) \<le> a" "rank (positive na) \<le> a"
    "rank (negative nb) \<le> b" "rank (positive nb) \<le> b"
    unfolding children_before_def by (metis snd_conv)+
  with ir_node show ?case
    by (simp add: in_store_Addr)
qed simp_all

lemma emplace_sink_inv:
  "sink_inv s st \<Longrightarrow> emplace d l r st = Inr (v, st') \<Longrightarrow> sink_inv s st'"
  unfolding sink_inv_def
  using emplace_s_factors emplace_distinct emplace_reduced by blast

lemma emplace_extends:
  "(\<exists>ys. cells st = h0 @ ys) \<Longrightarrow> emplace d l r st = Inr (v, st')
   \<Longrightarrow> (\<exists>ys. cells st' = h0 @ ys)"
  by (drule emplace_cases) auto

lemma icache_ok_append: "icache_ok h s c \<Longrightarrow> icache_ok (h @ ys) s c"
  unfolding icache_ok_def by (blast intro: inv_rel_append)

lemma invert_c_extends:
  assumes "invert_c n c x st = Inr (v, c', st')"
  shows "\<exists>ys. cells st' = cells st @ ys"
proof -
  have step: "\<exists>ys. cells t' = cells st @ ys"
    if "\<exists>ys. cells t = cells st @ ys" "emplace d l r t = Inr (v, t')" for d l r t v t'
    using that emplace_extends[of t "cells st" d l r v t'] by blast
  have init: "\<exists>ys. cells st = cells st @ ys" by simp
  from invert_c_preserves[of "\<lambda>t. \<exists>ys. cells t = cells st @ ys", OF step init assms]
  show ?thesis .
qed

lemma invert_c_rel:
  "sink_inv s st \<Longrightarrow> in_store (cells st) s x \<Longrightarrow> icache_ok (cells st) s c
   \<Longrightarrow> invert_c n c x st = Inr (v, c', st')
   \<Longrightarrow> inv_rel (cells st') s x v \<and> icache_ok (cells st') s c'"
proof (induction n arbitrary: c x st v c' st')
  case 0
  from invert_c_cases[OF "0.prems"(4)] "0.prems"(1-3) show ?case
    by (auto simp: icache_ok_def intro: inv_rel.intros)
next
  case (Suc n)
  from invert_c_cases[OF Suc.prems(4)] show ?case
  proof (elim disjE conjE exE)
    fix k nd l c1 st1 r c2 st2
    assume k: "Suc n = Suc k" and xn: "x \<noteq> ZERO" "x \<noteq> ONE"
      and d: "deref st x = Some nd"
      and l: "invert_c k c (negative nd) st = Inr (l, c1, st1)"
      and r: "invert_c k c1 (positive nd) st1 = Inr (r, c2, st2)"
      and e: "emplace (depth nd) l r st2 = Inr (v, st')"
      and c': "c' = c2(x \<mapsto> v)"
    from k have kn: "k = n" by simp
    from xn d obtain a where a: "x = Addr a" "a < length (cells st)" "nd = snd (cells st ! a)"
      by (cases x) (auto simp: deref_def split: if_splits)
    from Suc.prems(2) a have ins: "fst (cells st ! a) = s"
      "in_store (cells st) s (negative nd)" "in_store (cells st) s (positive nd)"
      by (simp_all add: in_store_Addr)
    from ins(1) a(3) have ha: "cells st ! a = (s, nd)" by (simp add: prod_eq_iff)
    from a(2) ha have "(s, nd) \<in> set (cells st)" by (metis nth_mem)
    with Suc.prems(1) have ne: "negative nd \<noteq> positive nd"
      by (auto simp: sink_inv_def reduced_def)
    from Suc.IH[OF Suc.prems(1) ins(2) Suc.prems(3) l[unfolded kn]]
    have 1: "inv_rel (cells st1) s (negative nd) l" "icache_ok (cells st1) s c1" by simp_all
    from invert_c_preserves[of "sink_inv s", OF emplace_sink_inv Suc.prems(1) l]
    have s1: "sink_inv s st1" .
    from invert_c_extends[OF l]
    obtain ys1 where e1: "cells st1 = cells st @ ys1" by auto
    from ins(3) e1 have "in_store (cells st1) s (positive nd)" by (simp add: in_store_append)
    from Suc.IH[OF s1 this 1(2) r[unfolded kn]]
    have 2: "inv_rel (cells st2) s (positive nd) r" "icache_ok (cells st2) s c2" by simp_all
    from invert_c_preserves[of "sink_inv s", OF emplace_sink_inv s1 r]
    have s2: "sink_inv s st2" .
    from invert_c_extends[OF r]
    obtain ys2 where e2: "cells st2 = cells st1 @ ys2" by auto
    from 1(1) e2 have l2: "inv_rel (cells st2) s (negative nd) l" by (simp add: inv_rel_append)
    have lr: "l \<noteq> r"
    proof
      assume "l = r"
      with l2 2(1) have "inv_rel (cells st2) s l (negative nd)" "inv_rel (cells st2) s l (positive nd)"
        by (simp_all add: inv_rel_sym)
      from inv_rel_fun[OF _ this] s2 ne show False by (simp add: sink_inv_def)
    qed
    from s2 have b2: "s_factors st2 = Some s" by (simp add: sink_inv_def)
    from emplace_bound[OF b2 lr, of "depth nd"] e obtain b ys3 where
      v: "v = Addr b" and b: "b < length (cells st')"
      and cb: "cells st' ! b = (s, \<lparr>depth = depth nd, negative = l, positive = r\<rparr>)"
      and e3: "cells st' = cells st2 @ ys3" by auto
    have ext: "cells st' = cells st @ (ys1 @ ys2 @ ys3)" using e1 e2 e3 by simp
    have a': "a < length (cells st')" "cells st' ! a = (s, nd)"
      using a(2) ha ext by (simp_all add: nth_append)
    have "inv_rel (cells st') s (negative nd) l" "inv_rel (cells st') s (positive nd) r"
      using l2 2(1) e3 by (simp_all add: inv_rel_append)
    with a' b cb have rel: "inv_rel (cells st') s (Addr a) (Addr b)"
      by (intro inv_rel.ir_node[of a _ b _ nd "\<lparr>depth = depth nd, negative = l, positive = r\<rparr>"])
        simp_all
    from 2(2) e3 have "icache_ok (cells st') s c2" by (simp add: icache_ok_append)
    with rel have "icache_ok (cells st') s c'"
      unfolding c' icache_ok_def a(1) v by simp
    with rel a(1) v show ?thesis by simp
  qed (use Suc.prems(1-3) in \<open>auto simp: icache_ok_def intro: inv_rel.intros\<close>)
qed

lemma reachable_sink_inv:
  "reachable st \<Longrightarrow> s_factors st = Some s \<Longrightarrow> sink_inv s st"
  using reachable_heap_inv[of st] by (simp add: sink_inv_def heap_inv_def)

lemma invert_involution:
  assumes "reachable st" "s_factors st = Some s" "in_store (cells st) s x" "rank x \<le> n"
  shows "\<exists>y st1. invert n x st = Inr (y, st1) \<and>
           (\<forall>m. rank y \<le> m \<longrightarrow> (\<exists>st2. invert m y st1 = Inr (x, st2)))"
proof -
  from reachable_heap_inv[OF assms(1)] have cb: "children_before (cells st)"
    by (simp add: heap_inv_def)
  from reachable_sink_inv[OF assms(1,2)] have si: "sink_inv s st" .
  from in_store_valid[OF assms(3)] have rx: "rank x \<le> length (cells st)" .
  have cv: "\<forall>k w. Map.empty k = Some w \<longrightarrow> rank w \<le> length (cells st)" by simp
  from invert_c_total[OF assms(2) cb rx cv assms(4)]
  obtain y c1 st1 where i1: "invert_c n Map.empty x st = Inr (y, c1, st1)" by blast
  have ic: "icache_ok h s Map.empty" for h by (simp add: icache_ok_def)
  from invert_c_rel[OF si assms(3) ic i1] have rel: "inv_rel (cells st1) s x y" by simp
  from invert_c_valid[OF cb rx cv i1] have cb1: "children_before (cells st1)"
    and ry: "rank y \<le> length (cells st1)" by simp_all
  from invert_c_preserves[of "sink_inv s", OF emplace_sink_inv si i1] have si1: "sink_inv s st1" .
  then have b1: "s_factors st1 = Some s" by (simp add: sink_inv_def)
  from inv_rel_in_store[OF cb1 rel] have iy: "in_store (cells st1) s y" by simp
  have cv1: "\<forall>k w. Map.empty k = Some w \<longrightarrow> rank w \<le> length (cells st1)" by simp
  have again: "\<exists>st2. invert m y st1 = Inr (x, st2)" if m: "rank y \<le> m" for m
  proof -
    from invert_c_total[OF b1 cb1 ry cv1 m]
    obtain z c2 st2 where i2: "invert_c m Map.empty y st1 = Inr (z, c2, st2)" by blast
    from invert_c_rel[OF si1 iy ic i2] have rel2: "inv_rel (cells st2) s y z" by simp
    from invert_c_extends[OF i2]
    obtain ys where "cells st2 = cells st1 @ ys" by auto
    with rel have "inv_rel (cells st2) s y x" by (simp add: inv_rel_append inv_rel_sym)
    moreover from invert_c_preserves[of "sink_inv s", OF emplace_sink_inv si1 i2]
    have "distinct (cells st2)" by (simp add: sink_inv_def)
    ultimately have "z = x" using rel2 inv_rel_fun by blast
    with i2 show ?thesis by (simp add: invert_def)
  qed
  from i1 have "invert n x st = Inr (y, st1)" by (simp add: invert_def)
  with again show ?thesis by blast
qed

lemma reachable_ex_other: "reachable ex_other"
proof -
  have "snd (bind (Some 1) ex_lit) = ex_other" by (simp add: bind_def ex_lit_def ex_other_def)
  with r_bind[OF reachable_ex_lit, of "Some 1"] show ?thesis by simp
qed

lemma join_c_fuel_mono:
  "join_c n c I A x y st = Inr res \<Longrightarrow> n \<le> m \<Longrightarrow> join_c m c I A x y st = Inr res"
proof (induction n arbitrary: m c x y st res)
  case 0
  obtain v c' st' where res: "res = (v, c', st')" by (cases res)
  from join_c_cases[OF "0.prems"(1)[unfolded res]] show ?case
  proof (elim disjE conjE exE)
    fix nx ny
    assume "x \<noteq> I" "y \<noteq> I" "x \<noteq> A" "y \<noteq> A" "deref st x = Some nx" "deref st y = Some ny"
      "c {x, y} = Some v" "c' = c" "st' = st"
    with join_c_hit[where c = c and x = x and y = y and n = m] res show ?thesis by simp
  qed (auto simp: res join_c.simps[of m])
next
  case (Suc n)
  obtain v c' st' where res: "res = (v, c', st')" by (cases res)
  from join_c_cases[OF Suc.prems(1)[unfolded res]] show ?case
  proof (elim disjE conjE exE)
    fix nx ny
    assume "x \<noteq> I" "y \<noteq> I" "x \<noteq> A" "y \<noteq> A" "deref st x = Some nx" "deref st y = Some ny"
      "c {x, y} = Some v" "c' = c" "st' = st"
    with join_c_hit[where c = c and x = x and y = y and n = m] res show ?thesis by simp
  next
    fix nx ny k lo c1 st1 hi c2 st2
    assume ne: "x \<noteq> I" "y \<noteq> I" "x \<noteq> A" "y \<noteq> A"
      and d: "deref st x = Some nx" "deref st y = Some ny" and miss: "c {x, y} = None"
      and k: "Suc n = Suc k"
      and l: "join_c k c I A (if depth nx > depth ny then x else negative nx)
                       (if \<not> depth nx > depth ny \<and> depth ny > depth nx then y else negative ny) st
                     = Inr (lo, c1, st1)"
      and r: "join_c k c1 I A (if depth nx > depth ny then x else positive nx)
                       (if \<not> depth nx > depth ny \<and> depth ny > depth nx then y else positive ny) st1
                     = Inr (hi, c2, st2)"
      and e: "emplace (min (depth nx) (depth ny)) lo hi st2 = Inr (v, st')"
      and c': "c' = c2({x, y} \<mapsto> v)"
    from k have kn: "k = n" by simp
    from Suc.prems(2) obtain m' where m: "m = Suc m'" "n \<le> m'" by (cases m) auto
    from Suc.IH[OF l[unfolded kn] m(2)] Suc.IH[OF r[unfolded kn] m(2)]
      join_c_miss[where c = c and x = x and y = y and k = m', OF ne d miss _ _ e]
    show ?thesis by (simp add: m(1) res c')
  qed (auto simp: res join_c.simps[of m])
qed

lemma emplace_unbound_eq:
  "s_factors st = None \<Longrightarrow> emplace d l r st = (if l = r then Inr (l, st) else Inl NoStoreBound)"
  by (simp add: emplace_def)

lemma invert_c_unfold:
  assumes "x \<noteq> ZERO" "x \<noteq> ONE" "c x = None" "deref st x = Some nd"
  shows "invert_c (Suc k) c x st =
           bindE (invert_c k c (negative nd) st) (\<lambda>(l, c1, st1).
           bindE (invert_c k c1 (positive nd) st1) (\<lambda>(r, c2, st2).
           bindE (emplace (depth nd) l r st2) (\<lambda>(v, st3).
           Inr (v, c2(x \<mapsto> v), st3))))"
  using assms by (subst invert_c.simps) simp


lemma invert_c_unbound:
  "s_factors st = None \<Longrightarrow> children_before (cells st) \<Longrightarrow> rank x \<le> length (cells st)
   \<Longrightarrow> \<forall>k w. c k = Some w \<longrightarrow> rank w \<le> length (cells st) \<Longrightarrow> rank x \<le> n
   \<Longrightarrow> (\<exists>v c'. invert_c n c x st = Inr (v, c', st)) \<or> invert_c n c x st = Inl NoStoreBound"
proof (induction n arbitrary: x c rule: less_induct)
  case (less n)
  note unb = less.prems(1) and cb = less.prems(2) and rx = less.prems(3)
    and cv = less.prems(4) and fuel = less.prems(5)
  show ?case
  proof (cases x)
    case ZERO
    then show ?thesis by (subst invert_c.simps) simp
  next
    case ONE
    then show ?thesis by (subst invert_c.simps) simp
  next
    case (Addr a)
    with rx have a: "a < length (cells st)" by simp
    define nd where "nd = snd (cells st ! a)"
    have d: "deref st x = Some nd" using a Addr by (simp add: deref_Addr nd_def)
    have xn: "x \<noteq> ZERO" "x \<noteq> ONE" using Addr by simp_all
    show ?thesis
    proof (cases "c x")
      case (Some v)
      from invert_c_hit[where c = c, OF xn Some] show ?thesis by blast
    next
      case None
      from fuel Addr obtain k where n: "n = Suc k" and k: "a \<le> k" by (cases n) auto
      from cb a have kids: "rank (negative nd) \<le> a" "rank (positive nd) \<le> a"
        by (simp_all add: children_before_def nd_def)
      have kn: "k < n" using n by simp
      note unf = invert_c_unfold[where c = c and k = k, OF xn None d]
      from kids a k have l0: "rank (negative nd) \<le> length (cells st)" "rank (negative nd) \<le> k"
        by simp_all
      from kids a k have r0: "rank (positive nd) \<le> length (cells st)" "rank (positive nd) \<le> k"
        by simp_all
      from less.IH[OF kn unb cb l0(1) cv l0(2)] show ?thesis
      proof (elim disjE exE)
        fix l c1 assume l: "invert_c k c (negative nd) st = Inr (l, c1, st)"
        from invert_c_valid[OF cb l0(1) cv l]
        have cv1: "\<forall>k w. c1 k = Some w \<longrightarrow> rank w \<le> length (cells st)" by simp
        from less.IH[OF kn unb cb r0(1) cv1 r0(2)] show ?thesis
        proof (elim disjE exE)
          fix r c2 assume r: "invert_c k c1 (positive nd) st = Inr (r, c2, st)"
          show ?thesis unfolding n unf
            by (simp add: l r emplace_unbound_eq[OF unb])
        next
          assume "invert_c k c1 (positive nd) st = Inl NoStoreBound"
          then show ?thesis unfolding n unf by (simp add: l)
        qed
      next
        assume "invert_c k c (negative nd) st = Inl NoStoreBound"
        then show ?thesis unfolding n unf by simp
      qed
    qed
  qed
qed



lemma join_v_total:
  assumes IA: "I = ONE \<and> A = ZERO \<or> I = ZERO \<and> A = ONE"
  shows "s_factors st = Some s \<Longrightarrow> children_before (cells st)
    \<Longrightarrow> rank x \<le> length (cells st) \<Longrightarrow> rank y \<le> length (cells st)
    \<Longrightarrow> \<forall>z\<in>set zs. rank z \<le> length (cells st)
    \<Longrightarrow> \<exists>N. \<forall>n. N \<le> n \<longrightarrow>
          (\<exists>v st'. join_v n I A x y zs st = Inr (v, st') \<and> rank v \<le> length (cells st'))"
proof (induction zs arbitrary: x y st)
  case Nil
  have co: "jcache_ok I (cells st) Map.empty" by (simp add: jcache_ok_def)
  have "\<exists>v st'. join_v n I A x y [] st = Inr (v, st') \<and> rank v \<le> length (cells st')"
    if n: "rank x + rank y \<le> n" for n
  proof -
    from join_c_correct[OF IA Nil.prems(1-4) co n]
    obtain v c' st' where "join_c n Map.empty I A x y st = Inr (v, c', st')"
      "rank v \<le> length (cells st')" unfolding join_ok_def by blast
    with join_v_binary show ?thesis by blast
  qed
  then show ?case by blast
next
  case (Cons z zs)
  have co: "jcache_ok I (cells st) Map.empty" by (simp add: jcache_ok_def)
  from join_c_correct[OF IA Cons.prems(1-4) co le_refl]
  obtain j c' st1 ys where j: "join_c (rank x + rank y) Map.empty I A x y st = Inr (j, c', st1)"
    and b1: "s_factors st1 = Some s" and e1: "cells st1 = cells st @ ys"
    and cb1: "children_before (cells st1)" and rj: "rank j \<le> length (cells st1)"
    unfolding join_ok_def by blast
  from Cons.prems(5) e1 have rz: "rank z \<le> length (cells st1)"
    "\<forall>z\<in>set zs. rank z \<le> length (cells st1)" by auto
  from Cons.IH[OF b1 cb1 rj rz] obtain N where
    N: "\<forall>n. N \<le> n \<longrightarrow>
          (\<exists>v st'. join_v n I A j z zs st1 = Inr (v, st') \<and> rank v \<le> length (cells st'))"
    by blast
  have "\<exists>v st'. join_v n I A x y (z # zs) st = Inr (v, st') \<and> rank v \<le> length (cells st')"
    if n: "max N (rank x + rank y) \<le> n" for n
  proof -
    from n have "rank x + rank y \<le> n" "N \<le> n" by simp_all
    from join_c_fuel_mono[OF j this(1)] N this(2) show ?thesis
      by (subst join_v.simps) simp
  qed
  then show ?case by blast
qed

lemma invert_total:
  assumes "reachable st" "s_factors st = Some s" "valid_ref st x" "rank x \<le> n"
  shows "\<exists>v st'. invert n x st = Inr (v, st') \<and> valid_ref st' v"
proof -
  from reachable_heap_inv[OF assms(1)] have cb: "children_before (cells st)"
    by (simp add: heap_inv_def)
  from assms(3) have rx: "rank x \<le> length (cells st)" by (simp add: valid_ref_rank)
  have cv: "\<forall>k w. Map.empty k = Some w \<longrightarrow> rank w \<le> length (cells st)" by simp
  from invert_c_total[OF assms(2) cb rx cv assms(4)]
  obtain v c' st' where i: "invert_c n Map.empty x st = Inr (v, c', st')" by blast
  from invert_c_valid[OF cb rx cv i] have "rank v \<le> length (cells st')" by simp
  with i show ?thesis by (simp add: invert_def valid_ref_rank)
qed


lemma invert_unbound:
  assumes "reachable st" "s_factors st = None" "valid_ref st x" "rank x \<le> n"
  shows "(\<exists>v. invert n x st = Inr (v, st)) \<or> invert n x st = Inl NoStoreBound"
proof -
  from reachable_heap_inv[OF assms(1)] have cb: "children_before (cells st)"
    by (simp add: heap_inv_def)
  from assms(3) have rx: "rank x \<le> length (cells st)" by (simp add: valid_ref_rank)
  have cv: "\<forall>k w. Map.empty k = Some w \<longrightarrow> rank w \<le> length (cells st)" by simp
  from invert_c_unbound[OF assms(2) cb rx cv assms(4)] show ?thesis
    by (auto simp: invert_def)
qed


lemma join_v_total_valid:
  assumes IA: "I = ONE \<and> A = ZERO \<or> I = ZERO \<and> A = ONE"
    and "reachable st" "s_factors st = Some s" "valid_ref st x" "valid_ref st y"
    "\<forall>z\<in>set zs. valid_ref st z"
  shows "\<exists>N. \<forall>n. N \<le> n \<longrightarrow>
          (\<exists>v st'. join_v n I A x y zs st = Inr (v, st') \<and> valid_ref st' v)"
proof -
  from reachable_heap_inv[OF assms(2)] have cb: "children_before (cells st)"
    by (simp add: heap_inv_def)
  from assms(4,5,6) have r: "rank x \<le> length (cells st)" "rank y \<le> length (cells st)"
    "\<forall>z\<in>set zs. rank z \<le> length (cells st)"
    by (simp_all add: valid_ref_rank)
  from join_v_total[OF IA assms(3) cb r] show ?thesis by (simp add: valid_ref_rank)
qed

lemma join_v_entry_caches_empty:
  "join_v_entry_caches n I A x y zs st
     = replicate (length (join_v_entry_caches n I A x y zs st)) Map.empty"
proof (induction zs arbitrary: x y st)
  case Nil
  show ?case by (subst (1 2) join_v_entry_caches.simps) (simp split: sum.splits)
next
  case (Cons z zs)
  show ?case
  proof (cases "join_c n Map.empty I A x y st")
    case (Inl e)
    then show ?thesis by (subst (1 2) join_v_entry_caches.simps) simp
  next
    case (Inr res)
    obtain j c st' where res: "res = (j, c, st')" by (cases res)
    from Cons.IH[of j z st'] Inr res show ?thesis
      by (subst (1 2) join_v_entry_caches.simps) simp
  qed
qed

lemma join_v_fold:
  "join_v n I A x y (z # zs) st
     = bindE (join_v n I A x y [] st) (\<lambda>(l_junction, st'). join_v n I A l_junction z zs st')"
proof (cases "join_c n Map.empty I A x y st")
  case (Inl e)
  then show ?thesis by (subst (1 2) join_v.simps) simp
next
  case (Inr res)
  obtain j c st' where res: "res = (j, c, st')" by (cases res)
  with Inr show ?thesis by (subst (1 2) join_v.simps) simp
qed

lemma ex_two_or_step:
  "join_c 1 Map.empty ZERO ONE (Addr 0) (Addr 1) ex_two
     = Inr (Addr 2, [{Addr 0, Addr 1} \<mapsto> Addr 2], ex_two_or)"
  by (simp add: join_c.simps deref_def emplace_def ex_two_def ex_two_or_def Let_def
      numeral_2_eq_2)

lemma ex_two_or_step2:
  "\<exists>c. join_c 1 Map.empty ZERO ONE (Addr 2) (Addr 0) ex_two_or = Inr (Addr 2, c, ex_two_or)"
  by (simp add: join_c.simps deref_def emplace_def ex_two_or_def Let_def)

lemma ordered_in_Addr:
  "ordered_in h s (Addr a) \<longleftrightarrow>
     a < length h \<and> fst (h ! a) = s \<and> rank (negative (snd (h ! a))) \<le> a
       \<and> rank (positive (snd (h ! a))) \<le> a
       \<and> above h (depth (snd (h ! a))) (negative (snd (h ! a)))
       \<and> above h (depth (snd (h ! a))) (positive (snd (h ! a)))
       \<and> ordered_in h s (negative (snd (h ! a))) \<and> ordered_in h s (positive (snd (h ! a)))"
  by (auto simp: ordered_in.simps(3))

lemma denote_node:
  assumes "a < length h" "rank (negative (snd (h ! a))) \<le> a" "rank (positive (snd (h ! a))) \<le> a"
  shows "denote h (Addr a) env =
     (if env (depth (snd (h ! a))) then denote h (positive (snd (h ! a))) env
      else denote h (negative (snd (h ! a))) env)"
  using assms by (simp add: denote.simps(3) Let_def)

lemma above_trans: "above h d r \<Longrightarrow> d' \<le> d \<Longrightarrow> above h d' r"
  by (cases r) (auto simp: above_def)

lemma denote_independent:
  "ordered_in h s r \<Longrightarrow> above h d r \<Longrightarrow> \<forall>v. d < v \<longrightarrow> env v = env' v
   \<Longrightarrow> denote h r env = denote h r env'"
proof (induction "rank r" arbitrary: r d rule: less_induct)
  case less
  show ?case
  proof (cases r)
    case (Addr a)
    let ?nd = "snd (h ! a)"
    from less.prems(1) Addr have o: "a < length h" "rank (negative ?nd) \<le> a"
      "rank (positive ?nd) \<le> a" "above h (depth ?nd) (negative ?nd)"
      "above h (depth ?nd) (positive ?nd)" "ordered_in h s (negative ?nd)"
      "ordered_in h s (positive ?nd)"
      by (simp_all add: ordered_in_Addr)
    from less.prems(2) Addr have d: "d < depth ?nd" by (simp add: above_def)
    with less.prems(3) have e: "env (depth ?nd) = env' (depth ?nd)" by simp
    from d have le: "d \<le> depth ?nd" by simp
    from o(2,3) Addr have lt: "rank (negative ?nd) < rank r" "rank (positive ?nd) < rank r"
      by simp_all
    from less.hyps[OF lt(1) o(6) above_trans[OF o(4) le] less.prems(3)]
      less.hyps[OF lt(2) o(7) above_trans[OF o(5) le] less.prems(3)]
    show ?thesis unfolding Addr denote_node[OF o(1,2,3)] e by simp
  qed simp_all
qed

lemma denote_upd_above:
  assumes "ordered_in h s r" "above h d r"
  shows "denote h r (env(d := b)) = denote h r env"
  by (rule denote_independent[OF assms]) simp

lemma node_sensitive:
  assumes "ordered_in h s (Addr a)"
    and "\<exists>env. denote h (negative (snd (h ! a))) env \<noteq> denote h (positive (snd (h ! a))) env"
  shows "\<exists>env. denote h (Addr a) (env(depth (snd (h ! a)) := True))
              \<noteq> denote h (Addr a) (env(depth (snd (h ! a)) := False))"
proof -
  let ?nd = "snd (h ! a)"
  from assms(1) have o: "a < length h" "rank (negative ?nd) \<le> a"
    "rank (positive ?nd) \<le> a" "above h (depth ?nd) (negative ?nd)"
    "above h (depth ?nd) (positive ?nd)" "ordered_in h s (negative ?nd)"
    "ordered_in h s (positive ?nd)"
    by (simp_all add: ordered_in_Addr)
  from assms(2) obtain env where
    e: "denote h (negative ?nd) env \<noteq> denote h (positive ?nd) env" by blast
  have "denote h (Addr a) (env(depth ?nd := True)) = denote h (positive ?nd) env"
    using denote_upd_above[OF o(7) o(5)] by (simp add: denote_node[OF o(1,2,3)])
  moreover have "denote h (Addr a) (env(depth ?nd := False)) = denote h (negative ?nd) env"
    using denote_upd_above[OF o(6) o(4)] by (simp add: denote_node[OF o(1,2,3)])
  ultimately show ?thesis using e by metis
qed

lemma ordered_canonical:
  assumes dist: "distinct h" and red: "\<forall>c\<in>set h. negative (snd c) \<noteq> positive (snd c)"
  shows "ordered_in h s x \<Longrightarrow> ordered_in h s y
    \<Longrightarrow> \<forall>env. denote h x env = denote h y env \<Longrightarrow> x = y"
proof (induction "max (rank x) (rank y)" arbitrary: x y rule: less_induct)
  case less
  note ox = less.prems(1) and oy = less.prems(2) and eq = less.prems(3)
  have sens: "\<exists>env. denote h (Addr a) (env(depth (snd (h ! a)) := True))
              \<noteq> denote h (Addr a) (env(depth (snd (h ! a)) := False))"
    if oa: "ordered_in h s (Addr a)" and ra: "Suc a \<le> max (rank x) (rank y)" for a
  proof -
    let ?nd = "snd (h ! a)"
    from oa have o: "a < length h" "rank (negative ?nd) \<le> a" "rank (positive ?nd) \<le> a"
      "ordered_in h s (negative ?nd)" "ordered_in h s (positive ?nd)"
      by (simp_all add: ordered_in_Addr)
    from o(1) red have ne: "negative ?nd \<noteq> positive ?nd" by (metis nth_mem)
    from o(2,3) ra have "max (rank (negative ?nd)) (rank (positive ?nd)) < max (rank x) (rank y)"
      by simp
    from less.hyps[OF this o(4,5)] ne
    have "\<exists>env. denote h (negative ?nd) env \<noteq> denote h (positive ?nd) env" by blast
    from node_sensitive[OF oa this] show ?thesis .
  qed
  have term_node: False
    if t: "t = ZERO \<or> t = ONE" and oa: "ordered_in h s (Addr a)"
      and ra: "Suc a \<le> max (rank x) (rank y)"
      and e: "\<forall>env. denote h t env = denote h (Addr a) env" for t a
  proof -
    from sens[OF oa ra] obtain env where
      "denote h (Addr a) (env(depth (snd (h ! a)) := True))
         \<noteq> denote h (Addr a) (env(depth (snd (h ! a)) := False))" by blast
    with e have "denote h t (env(depth (snd (h ! a)) := True))
         \<noteq> denote h t (env(depth (snd (h ! a)) := False))" by simp
    with t show False by auto
  qed
  show ?case
  proof (cases x)
    case ZERO
    show ?thesis
    proof (cases y)
      case (Addr b)
      from term_node[of x b] ZERO Addr oy eq show ?thesis by simp
    next
      case ONE
      with ZERO eq show ?thesis by simp
    qed (simp add: ZERO)
  next
    case ONE
    show ?thesis
    proof (cases y)
      case (Addr b)
      from term_node[of x b] ONE Addr oy eq show ?thesis by simp
    next
      case ZERO
      with ONE eq show ?thesis by simp
    qed (simp add: ONE)
  next
    case (Addr a)
    note xa = Addr
    show ?thesis
    proof (cases y)
      case ZERO
      from term_node[of y a] ZERO xa ox eq show ?thesis by simp
    next
      case ONE
      from term_node[of y a] ONE xa ox eq show ?thesis by simp
    next
      case (Addr b)
      let ?nx = "snd (h ! a)" and ?ny = "snd (h ! b)"
      from ox xa have o1: "a < length h" "fst (h ! a) = s" "rank (negative ?nx) \<le> a"
        "rank (positive ?nx) \<le> a" "above h (depth ?nx) (negative ?nx)"
        "above h (depth ?nx) (positive ?nx)" "ordered_in h s (negative ?nx)"
        "ordered_in h s (positive ?nx)"
        by (simp_all add: ordered_in_Addr)
      from oy Addr have o2: "b < length h" "fst (h ! b) = s" "rank (negative ?ny) \<le> b"
        "rank (positive ?ny) \<le> b" "above h (depth ?ny) (negative ?ny)"
        "above h (depth ?ny) (positive ?ny)" "ordered_in h s (negative ?ny)"
        "ordered_in h s (positive ?ny)"
        by (simp_all add: ordered_in_Addr)
      have ra: "Suc a \<le> max (rank x) (rank y)" and rb: "Suc b \<le> max (rank x) (rank y)"
        using xa Addr by simp_all
      consider (lt) "depth ?nx < depth ?ny" | (gt) "depth ?ny < depth ?nx"
        | (same) "depth ?nx = depth ?ny" by (metis linorder_neqE)
      then show ?thesis
      proof cases
        case lt
        from sens[OF ox[unfolded xa] ra] obtain env where
          s: "denote h (Addr a) (env(depth ?nx := True))
               \<noteq> denote h (Addr a) (env(depth ?nx := False))" by blast
        from lt o2(1) have "above h (depth ?nx) (Addr b)" by (simp add: above_def)
        from denote_upd_above[OF oy[unfolded Addr] this]
        have "denote h (Addr b) (env(depth ?nx := True))
               = denote h (Addr b) (env(depth ?nx := False))" by simp
        with s eq xa Addr show ?thesis by simp
      next
        case gt
        from sens[OF oy[unfolded Addr] rb] obtain env where
          s: "denote h (Addr b) (env(depth ?ny := True))
               \<noteq> denote h (Addr b) (env(depth ?ny := False))" by blast
        from gt o1(1) have "above h (depth ?ny) (Addr a)" by (simp add: above_def)
        from denote_upd_above[OF ox[unfolded xa] this]
        have "denote h (Addr a) (env(depth ?ny := True))
               = denote h (Addr a) (env(depth ?ny := False))" by simp
        with s eq xa Addr show ?thesis by simp
      next
        case same
        have neg_eq: "denote h (negative ?nx) env = denote h (negative ?ny) env" for env
        proof -
          from eq xa Addr have "denote h (Addr a) (env(depth ?nx := False))
              = denote h (Addr b) (env(depth ?nx := False))" by simp
          then have "denote h (negative ?nx) (env(depth ?nx := False))
              = denote h (negative ?ny) (env(depth ?nx := False))"
            by (simp add: denote_node[OF o1(1,3,4)] denote_node[OF o2(1,3,4)] same)
          with denote_upd_above[OF o1(7) o1(5)] denote_upd_above[OF o2(7) o2(5)] same
          show ?thesis by simp
        qed
        have pos_eq: "denote h (positive ?nx) env = denote h (positive ?ny) env" for env
        proof -
          from eq xa Addr have "denote h (Addr a) (env(depth ?nx := True))
              = denote h (Addr b) (env(depth ?nx := True))" by simp
          then have "denote h (positive ?nx) (env(depth ?nx := True))
              = denote h (positive ?ny) (env(depth ?nx := True))"
            by (simp add: denote_node[OF o1(1,3,4)] denote_node[OF o2(1,3,4)] same)
          with denote_upd_above[OF o1(8) o1(6)] denote_upd_above[OF o2(8) o2(6)] same
          show ?thesis by simp
        qed
        have m1: "max (rank (negative ?nx)) (rank (negative ?ny)) < max (rank x) (rank y)"
          using o1(3) o2(3) xa Addr by (auto simp: max_def)
        have m2: "max (rank (positive ?nx)) (rank (positive ?ny)) < max (rank x) (rank y)"
          using o1(4) o2(4) xa Addr by (auto simp: max_def)
        from less.hyps[OF m1 o1(7) o2(7)] neg_eq have n: "negative ?nx = negative ?ny" by simp
        from less.hyps[OF m2 o1(8) o2(8)] pos_eq have p: "positive ?nx = positive ?ny" by simp
        from n p same have "?nx = ?ny" by simp
        with o1(2) o2(2) have "h ! a = h ! b" by (simp add: prod_eq_iff)
        with dist o1(1) o2(1) have "a = b" by (simp add: nth_eq_iff_index_eq)
        with xa Addr show ?thesis by simp
      qed
    qed
  qed
qed

lemma above_append: "above h d r \<Longrightarrow> above (h @ ys) d r"
  by (cases r) (auto simp: above_def nth_append)

lemma ordered_in_valid: "ordered_in h s r \<Longrightarrow> rank r \<le> length h"
  by (cases r) (simp_all add: ordered_in_Addr)

lemma ordered_in_append: "ordered_in h s r \<Longrightarrow> ordered_in (h @ ys) s r"
proof (induction "rank r" arbitrary: r rule: less_induct)
  case less
  show ?case
  proof (cases r)
    case (Addr a)
    let ?nd = "snd (h ! a)"
    from less.prems Addr have o: "a < length h" "fst (h ! a) = s" "rank (negative ?nd) \<le> a"
      "rank (positive ?nd) \<le> a" "above h (depth ?nd) (negative ?nd)"
      "above h (depth ?nd) (positive ?nd)" "ordered_in h s (negative ?nd)"
      "ordered_in h s (positive ?nd)"
      by (simp_all add: ordered_in_Addr)
    from o(3,4) Addr have "rank (negative ?nd) < rank r" "rank (positive ?nd) < rank r"
      by simp_all
    from less.hyps[OF this(1) o(7)] less.hyps[OF this(2) o(8)] o above_append[OF o(5), of ys]
      above_append[OF o(6), of ys] Addr
    show ?thesis by (simp add: ordered_in_Addr nth_append)
  qed simp_all
qed

lemma ordered_in_in_store: "ordered_in h s r \<Longrightarrow> in_store h s r"
proof (induction "rank r" arbitrary: r rule: less_induct)
  case less
  show ?case
  proof (cases r)
    case (Addr a)
    let ?nd = "snd (h ! a)"
    from less.prems Addr have o: "a < length h" "fst (h ! a) = s" "rank (negative ?nd) \<le> a"
      "rank (positive ?nd) \<le> a" "ordered_in h s (negative ?nd)"
      "ordered_in h s (positive ?nd)"
      by (simp_all add: ordered_in_Addr)
    from o(3,4) Addr have "rank (negative ?nd) < rank r" "rank (positive ?nd) < rank r"
      by simp_all
    from less.hyps[OF this(1) o(5)] less.hyps[OF this(2) o(6)] o Addr
    show ?thesis by (simp add: in_store_Addr)
  qed simp_all
qed

lemma emplace_ordered:
  assumes "s_factors st = Some s" "children_before (cells st)"
    "ordered_in (cells st) s lo" "ordered_in (cells st) s hi"
    "above (cells st) d lo" "above (cells st) d hi" "emplace d lo hi st = Inr (v, st')"
  shows "ordered_in (cells st') s v \<and> (\<forall>d'. d' < d \<longrightarrow> above (cells st') d' v)
       \<and> (\<exists>ys. cells st' = cells st @ ys)"
proof (cases "lo = hi")
  case True
  with assms(7) have "v = lo" "st' = st" by (simp_all add: emplace_def)
  with assms(3,5) show ?thesis by (auto intro: above_trans)
next
  case False
  from emplace_bound[OF assms(1) False, of d] assms(7) obtain a ys where
    v: "v = Addr a" and a: "a < length (cells st')"
    and c: "cells st' ! a = (s, \<lparr>depth = d, negative = lo, positive = hi\<rparr>)"
    and ys: "cells st' = cells st @ ys" by auto
  from emplace_valid[OF assms(2) ordered_in_valid[OF assms(3)] ordered_in_valid[OF assms(4)]
      assms(7)]
  have "children_before (cells st')" by simp
  with a c have r: "rank lo \<le> a" "rank hi \<le> a"
    unfolding children_before_def by (metis node.select_convs(2,3) snd_conv)+
  have o: "ordered_in (cells st') s lo" "ordered_in (cells st') s hi"
    "above (cells st') d lo" "above (cells st') d hi"
    using assms(3-6) by (simp_all add: ys ordered_in_append above_append)
  from a c r o have "ordered_in (cells st') s (Addr a)"
    by (simp add: ordered_in_Addr)
  moreover from a c have "above (cells st') d' (Addr a)" if "d' < d" for d'
    using that by (simp add: above_def)
  ultimately show ?thesis using v ys by blast
qed

lemma above_append_iff: "rank r \<le> length h \<Longrightarrow> above (h @ ys) d r \<longleftrightarrow> above h d r"
  by (cases r) (auto simp: above_def nth_append)

lemma ocache_ok_append:
  assumes "ocache_ok h s c"
  shows "ocache_ok (h @ ys) s c"
  unfolding ocache_ok_def
proof (intro conjI allI impI)
  fix k w assume "c k = Some w"
  with assms show "ordered_in (h @ ys) s w" by (auto simp: ocache_ok_def intro: ordered_in_append)
next
  fix x y v assume c: "c {x, y} = Some v"
  with assms have r: "rank x \<le> length h" "rank y \<le> length h"
    and ab: "\<forall>d. above h d x \<and> above h d y \<longrightarrow> above h d v"
    unfolding ocache_ok_def by blast+
  from r show "rank x \<le> length (h @ ys)" "rank y \<le> length (h @ ys)" by simp_all
  fix d assume "above (h @ ys) d x \<and> above (h @ ys) d y"
  with r ab have "above h d v" by (simp add: above_append_iff)
  then show "above (h @ ys) d v" by (rule above_append)
qed

lemma ocache_ok_upd:
  assumes "ocache_ok h s c" "ordered_in h s v" "rank x \<le> length h" "rank y \<le> length h"
    "\<forall>d. above h d x \<and> above h d y \<longrightarrow> above h d v"
  shows "ocache_ok h s (c({x, y} \<mapsto> v))"
  unfolding ocache_ok_def
proof (intro conjI allI impI)
  fix k w assume "(c({x, y} \<mapsto> v)) k = Some w"
  with assms(1,2) show "ordered_in h s w"
    by (cases "k = {x, y}") (auto simp: ocache_ok_def)
next
  fix x' y' v' assume h: "(c({x, y} \<mapsto> v)) {x', y'} = Some v'"
  have "rank x' \<le> length h \<and> rank y' \<le> length h \<and>
        (\<forall>d. above h d x' \<and> above h d y' \<longrightarrow> above h d v')"
  proof (cases "{x', y'} = {x, y}")
    case True
    then have "x' = x \<and> y' = y \<or> x' = y \<and> y' = x" by (auto simp: doubleton_eq_iff)
    moreover from True h have "v' = v" by simp
    ultimately show ?thesis using assms(3-5) by auto
  next
    case False
    with h have "c {x', y'} = Some v'" by simp
    with assms(1) show ?thesis unfolding ocache_ok_def by blast
  qed
  then show "rank x' \<le> length h" "rank y' \<le> length h"
    "\<And>d. above h d x' \<and> above h d y' \<Longrightarrow> above h d v'" by blast+
qed

lemma ocache_ok_valid:
  "ocache_ok h s c \<Longrightarrow> \<forall>k w. c k = Some w \<longrightarrow> rank w \<le> length h"
  unfolding ocache_ok_def by (blast intro: ordered_in_valid)

lemma join_c_ordered:
  assumes IA: "I = ONE \<and> A = ZERO \<or> I = ZERO \<and> A = ONE"
  shows "s_factors st = Some s \<Longrightarrow> children_before (cells st)
    \<Longrightarrow> ordered_in (cells st) s x \<Longrightarrow> ordered_in (cells st) s y
    \<Longrightarrow> ocache_ok (cells st) s c \<Longrightarrow> join_c n c I A x y st = Inr (v, c', st')
    \<Longrightarrow> ordered_in (cells st') s v
        \<and> (\<forall>d. above (cells st) d x \<and> above (cells st) d y \<longrightarrow> above (cells st') d v)
        \<and> ocache_ok (cells st') s c'"
proof (induction n arbitrary: c x y st v c' st')
  case 0
  from join_c_cases[OF "0.prems"(6)] "0.prems"(1-5) IA show ?case
    by (auto simp: ocache_ok_def above_def)
next
  case (Suc n)
  note bound = Suc.prems(1) and cb = Suc.prems(2) and ox = Suc.prems(3) and oy = Suc.prems(4)
    and co = Suc.prems(5)
  let ?h = "cells st"
  have rA: "rank A \<le> length ?h" using IA by auto
  from join_c_cases[OF Suc.prems(6)] show ?case
  proof (elim disjE conjE exE)
    fix nx ny k lo c1 st1 hi c2 st2
    assume k: "Suc n = Suc k"
      and dx: "deref st x = Some nx" and dy: "deref st y = Some ny"
      and l: "join_c k c I A (if depth nx > depth ny then x else negative nx)
                       (if \<not> depth nx > depth ny \<and> depth ny > depth nx then y else negative ny) st
                     = Inr (lo, c1, st1)"
      and r: "join_c k c1 I A (if depth nx > depth ny then x else positive nx)
                       (if \<not> depth nx > depth ny \<and> depth ny > depth nx then y else positive ny) st1
                     = Inr (hi, c2, st2)"
      and e: "emplace (min (depth nx) (depth ny)) lo hi st2 = Inr (v, st')"
      and c': "c' = c2({x, y} \<mapsto> v)"
    from k have kn: "k = n" by simp
    from dx obtain a where a: "x = Addr a" "a < length ?h" "nx = snd (?h ! a)"
      by (cases x) (auto simp: deref_def split: if_splits)
    from dy obtain b where b: "y = Addr b" "b < length ?h" "ny = snd (?h ! b)"
      by (cases y) (auto simp: deref_def split: if_splits)
    from ox a have o1: "above ?h (depth nx) (negative nx)" "above ?h (depth nx) (positive nx)"
      "ordered_in ?h s (negative nx)" "ordered_in ?h s (positive nx)"
      by (simp_all add: ordered_in_Addr)
    from oy b have o2: "above ?h (depth ny) (negative ny)" "above ?h (depth ny) (positive ny)"
      "ordered_in ?h s (negative ny)" "ordered_in ?h s (positive ny)"
      by (simp_all add: ordered_in_Addr)
    define m where "m = min (depth nx) (depth ny)"
    define xl where "xl = (if depth nx > depth ny then x else negative nx)"
    define yl where "yl = (if \<not> depth nx > depth ny \<and> depth ny > depth nx then y else negative ny)"
    define xr where "xr = (if depth nx > depth ny then x else positive nx)"
    define yr where "yr = (if \<not> depth nx > depth ny \<and> depth ny > depth nx then y else positive ny)"
    have ol: "ordered_in ?h s xl" "ordered_in ?h s yl"
      and orr: "ordered_in ?h s xr" "ordered_in ?h s yr"
      using ox oy o1 o2 by (simp_all add: xl_def yl_def xr_def yr_def)
    have mle: "m \<le> depth nx" "m \<le> depth ny" by (simp_all add: m_def)
    have "above ?h m xl \<and> above ?h m yl \<and> above ?h m xr \<and> above ?h m yr"
    proof -
      consider (gt) "depth ny < depth nx" | (lt) "depth nx < depth ny"
        | (same) "depth nx = depth ny" by (metis linorder_neqE)
      then show ?thesis
      proof cases
        case gt
        then have "above ?h m x" using a by (simp add: above_def m_def)
        with gt o2(1,2) mle(2) show ?thesis
          by (auto simp: xl_def yl_def xr_def yr_def intro: above_trans)
      next
        case lt
        then have "above ?h m y" using b by (simp add: above_def m_def)
        with lt o1(1,2) mle(1) show ?thesis
          by (auto simp: xl_def yl_def xr_def yr_def intro: above_trans)
      next
        case same
        with o1(1,2) o2(1,2) mle show ?thesis
          by (auto simp: xl_def yl_def xr_def yr_def intro: above_trans)
      qed
    qed
    then have al: "above ?h m xl" "above ?h m yl" and ar: "above ?h m xr" "above ?h m yr"
      by simp_all
    from Suc.IH[OF bound cb ol co l[unfolded kn, folded xl_def yl_def]]
    have 1: "ordered_in (cells st1) s lo"
      "\<forall>d. above ?h d xl \<and> above ?h d yl \<longrightarrow> above (cells st1) d lo"
      "ocache_ok (cells st1) s c1" by simp_all
    from join_c_preserves[of "\<lambda>t. s_factors t = Some s", OF emplace_s_factors bound l]
    have b1: "s_factors st1 = Some s" .
    from join_c_valid[OF cb _ _ rA ocache_ok_valid[OF co] l[folded xl_def yl_def]]
      ordered_in_valid[OF ol(1)] ordered_in_valid[OF ol(2)]
    obtain ys1 where cb1: "children_before (cells st1)" and e1: "cells st1 = ?h @ ys1"
      by (auto simp: xl_def yl_def)
    have or1: "ordered_in (cells st1) s xr" "ordered_in (cells st1) s yr"
      using orr by (simp_all add: e1 ordered_in_append)
    from Suc.IH[OF b1 cb1 or1 1(3) r[unfolded kn, folded xr_def yr_def]]
    have 2: "ordered_in (cells st2) s hi"
      "\<forall>d. above (cells st1) d xr \<and> above (cells st1) d yr \<longrightarrow> above (cells st2) d hi"
      "ocache_ok (cells st2) s c2" by simp_all
    from join_c_preserves[of "\<lambda>t. s_factors t = Some s", OF emplace_s_factors b1 r]
    have b2: "s_factors st2 = Some s" .
    have rA1: "rank A \<le> length (cells st1)" using IA by auto
    from join_c_valid[OF cb1 _ _ rA1 ocache_ok_valid[OF 1(3)] r[folded xr_def yr_def]]
      ordered_in_valid[OF or1(1)] ordered_in_valid[OF or1(2)]
    obtain ys2 where cb2: "children_before (cells st2)" and e2: "cells st2 = cells st1 @ ys2"
      by (auto simp: xr_def yr_def)
    have lo2: "ordered_in (cells st2) s lo" "above (cells st2) m lo"
      using 1(1,2) al by (simp_all add: e2 ordered_in_append above_append)
    have hi2: "above (cells st2) m hi"
      using 2(2) ar by (simp add: e1 above_append)
    from emplace_ordered[OF b2 cb2 lo2(1) 2(1) lo2(2) hi2 e[folded m_def]]
    obtain ys3 where 3: "ordered_in (cells st') s v" "\<forall>d'. d' < m \<longrightarrow> above (cells st') d' v"
      and e3: "cells st' = cells st2 @ ys3" by blast
    have ext: "cells st' = ?h @ (ys1 @ ys2 @ ys3)" using e1 e2 e3 by simp
    have top: "above (cells st') d v" if "above ?h d x \<and> above ?h d y" for d
    proof -
      from that a b have "d < m" by (simp add: above_def m_def)
      with 3(2) show ?thesis by simp
    qed
    have rxy: "rank x \<le> length (cells st')" "rank y \<le> length (cells st')"
      using a b ext by simp_all
    have top': "\<forall>d. above (cells st') d x \<and> above (cells st') d y \<longrightarrow> above (cells st') d v"
      using top a(1,2) b(1,2) by (simp add: ext above_append_iff)
    from 2(3) have "ocache_ok (cells st') s c2" by (simp add: e3 ocache_ok_append)
    from ocache_ok_upd[OF this 3(1) rxy top'] have "ocache_ok (cells st') s c'"
      unfolding c' .
    with 3(1) top show ?thesis by blast
  qed (use Suc.prems(1-5) IA in \<open>auto simp: ocache_ok_def above_def\<close>)
qed

lemma oicache_ok_append:
  assumes "oicache_ok h s c"
  shows "oicache_ok (h @ ys) s c"
  unfolding oicache_ok_def
proof (intro conjI allI impI)
  fix x v assume c: "c x = Some v"
  with assms have r: "rank x \<le> length h" and o: "ordered_in h s v"
    and ab: "\<forall>d. above h d x \<longrightarrow> above h d v"
    unfolding oicache_ok_def by blast+
  from r show "rank x \<le> length (h @ ys)" by simp
  from o show "ordered_in (h @ ys) s v" by (rule ordered_in_append)
  fix d assume "above (h @ ys) d x"
  with r ab have "above h d v" by (simp add: above_append_iff)
  then show "above (h @ ys) d v" by (rule above_append)
qed

lemma oicache_ok_valid:
  "oicache_ok h s c \<Longrightarrow> \<forall>k w. c k = Some w \<longrightarrow> rank w \<le> length h"
  unfolding oicache_ok_def by (blast intro: ordered_in_valid)

lemma invert_c_ordered:
  "s_factors st = Some s \<Longrightarrow> children_before (cells st) \<Longrightarrow> ordered_in (cells st) s x
    \<Longrightarrow> oicache_ok (cells st) s c \<Longrightarrow> invert_c n c x st = Inr (v, c', st')
    \<Longrightarrow> ordered_in (cells st') s v
        \<and> (\<forall>d. above (cells st) d x \<longrightarrow> above (cells st') d v)
        \<and> oicache_ok (cells st') s c'"
proof (induction n arbitrary: c x st v c' st')
  case 0
  from invert_c_cases[OF "0.prems"(5)] "0.prems"(1-4) show ?case
    by (auto simp: oicache_ok_def above_def)
next
  case (Suc n)
  note bound = Suc.prems(1) and cb = Suc.prems(2) and ox = Suc.prems(3) and co = Suc.prems(4)
  let ?h = "cells st"
  from invert_c_cases[OF Suc.prems(5)] show ?case
  proof (elim disjE conjE exE)
    fix k nd l c1 st1 r c2 st2
    assume k: "Suc n = Suc k" and xn: "x \<noteq> ZERO" "x \<noteq> ONE"
      and d: "deref st x = Some nd"
      and l: "invert_c k c (negative nd) st = Inr (l, c1, st1)"
      and r: "invert_c k c1 (positive nd) st1 = Inr (r, c2, st2)"
      and e: "emplace (depth nd) l r st2 = Inr (v, st')"
      and c': "c' = c2(x \<mapsto> v)"
    from k have kn: "k = n" by simp
    from xn d obtain a where a: "x = Addr a" "a < length ?h" "nd = snd (?h ! a)"
      by (cases x) (auto simp: deref_def split: if_splits)
    from ox a have o: "above ?h (depth nd) (negative nd)" "above ?h (depth nd) (positive nd)"
      "ordered_in ?h s (negative nd)" "ordered_in ?h s (positive nd)"
      by (simp_all add: ordered_in_Addr)
    from Suc.IH[OF bound cb o(3) co l[unfolded kn]]
    have 1: "ordered_in (cells st1) s l"
      "\<forall>d. above ?h d (negative nd) \<longrightarrow> above (cells st1) d l"
      "oicache_ok (cells st1) s c1" by simp_all
    from invert_c_preserves[of "\<lambda>t. s_factors t = Some s", OF emplace_s_factors bound l]
    have b1: "s_factors st1 = Some s" .
    from invert_c_valid[OF cb ordered_in_valid[OF o(3)] oicache_ok_valid[OF co] l]
    obtain ys1 where cb1: "children_before (cells st1)" and e1: "cells st1 = ?h @ ys1"
      by auto
    have or1: "ordered_in (cells st1) s (positive nd)"
      using o(4) by (simp add: e1 ordered_in_append)
    from Suc.IH[OF b1 cb1 or1 1(3) r[unfolded kn]]
    have 2: "ordered_in (cells st2) s r"
      "\<forall>d. above (cells st1) d (positive nd) \<longrightarrow> above (cells st2) d r"
      "oicache_ok (cells st2) s c2" by simp_all
    from invert_c_preserves[of "\<lambda>t. s_factors t = Some s", OF emplace_s_factors b1 r]
    have b2: "s_factors st2 = Some s" .
    from invert_c_valid[OF cb1 ordered_in_valid[OF or1] oicache_ok_valid[OF 1(3)] r]
    obtain ys2 where cb2: "children_before (cells st2)" and e2: "cells st2 = cells st1 @ ys2"
      by auto
    have l2: "ordered_in (cells st2) s l" "above (cells st2) (depth nd) l"
      using 1(1,2) o(1) by (simp_all add: e2 ordered_in_append above_append)
    have r2: "above (cells st2) (depth nd) r"
      using 2(2) o(2) by (simp add: e1 above_append)
    from emplace_ordered[OF b2 cb2 l2(1) 2(1) l2(2) r2 e]
    obtain ys3 where 3: "ordered_in (cells st') s v"
      "\<forall>d'. d' < depth nd \<longrightarrow> above (cells st') d' v"
      and e3: "cells st' = cells st2 @ ys3" by blast
    have ext: "cells st' = ?h @ (ys1 @ ys2 @ ys3)" using e1 e2 e3 by simp
    have top: "above (cells st') d v" if "above ?h d x" for d
      using that a 3(2) by (simp add: above_def)
    have rx: "rank x \<le> length (cells st')" using a ext by simp
    have top': "\<forall>d. above (cells st') d x \<longrightarrow> above (cells st') d v"
      using top a(1,2) by (simp add: ext above_append_iff)
    from 2(3) have "oicache_ok (cells st') s c2" by (simp add: e3 oicache_ok_append)
    with 3(1) rx top' have "oicache_ok (cells st') s c'"
      unfolding c' oicache_ok_def by simp
    with 3(1) top show ?thesis by blast
  qed (use Suc.prems(1-4) in \<open>auto simp: oicache_ok_def above_def\<close>)
qed

lemma literal_ordered:
  assumes "reachable st" "s_factors st = Some s" "literal i b st = Inr (v, st')"
  shows "ordered_in (cells st') s v"
proof -
  from reachable_heap_inv[OF assms(1)] have cb: "children_before (cells st)"
    by (simp add: heap_inv_def)
  from assms(3) have e: "emplace i (if \<not> b then ONE else ZERO) (if b then ONE else ZERO) st
      = Inr (v, st')" by (simp add: literal_def)
  from emplace_ordered[OF assms(2) cb _ _ _ _ e] show ?thesis by (simp add: above_def)
qed

lemma invert_ordered:
  assumes "reachable st" "s_factors st = Some s" "ordered_in (cells st) s x"
    "invert n x st = Inr (v, st')"
  shows "ordered_in (cells st') s v"
proof -
  from reachable_heap_inv[OF assms(1)] have cb: "children_before (cells st)"
    by (simp add: heap_inv_def)
  from assms(4) obtain c where c: "invert_c n Map.empty x st = Inr (v, c, st')"
    by (auto simp: invert_def bindE_Inr_iff)
  have "oicache_ok (cells st) s Map.empty" by (simp add: oicache_ok_def)
  from invert_c_ordered[OF assms(2) cb assms(3) this c] show ?thesis by simp
qed

lemma join_v_ordered:
  assumes IA: "I = ONE \<and> A = ZERO \<or> I = ZERO \<and> A = ONE"
  shows "s_factors st = Some s \<Longrightarrow> children_before (cells st)
    \<Longrightarrow> ordered_in (cells st) s x \<Longrightarrow> ordered_in (cells st) s y
    \<Longrightarrow> \<forall>z\<in>set zs. ordered_in (cells st) s z
    \<Longrightarrow> join_v n I A x y zs st = Inr (v, st') \<Longrightarrow> ordered_in (cells st') s v"
proof (induction zs arbitrary: x y st)
  case Nil
  from Nil.prems(6) obtain c where
    j: "join_c n Map.empty I A x y st = Inr (v, c, st')"
    by (subst (asm) join_v.simps) (auto simp: bindE_Inr_iff)
  have "ocache_ok (cells st) s Map.empty" by (simp add: ocache_ok_def)
  from join_c_ordered[OF IA Nil.prems(1-4) this j] show ?case by simp
next
  case (Cons z zs)
  from Cons.prems(6) obtain j c st1 where
    j: "join_c n Map.empty I A x y st = Inr (j, c, st1)" and
    v: "join_v n I A j z zs st1 = Inr (v, st')"
    by (subst (asm) join_v.simps) (auto simp: bindE_Inr_iff)
  have co: "ocache_ok (cells st) s Map.empty" by (simp add: ocache_ok_def)
  from join_c_ordered[OF IA Cons.prems(1-4) co j] have oj: "ordered_in (cells st1) s j" by simp
  from join_c_preserves[of "\<lambda>t. s_factors t = Some s", OF emplace_s_factors Cons.prems(1) j]
  have b1: "s_factors st1 = Some s" .
  have rA: "rank A \<le> length (cells st)" using IA by auto
  from join_c_valid[OF Cons.prems(2) ordered_in_valid[OF Cons.prems(3)]
      ordered_in_valid[OF Cons.prems(4)] rA _ j]
  obtain ys1 where cb1: "children_before (cells st1)" and e1: "cells st1 = cells st @ ys1"
    by auto
  from Cons.prems(5) have oz: "ordered_in (cells st1) s z" "\<forall>z\<in>set zs. ordered_in (cells st1) s z"
    by (simp_all add: e1 ordered_in_append)
  from Cons.IH[OF b1 cb1 oj oz v] show ?case .
qed

lemma emplace_repeat:
  assumes "s_factors st = Some s"
  shows "\<exists>v st1. emplace d l r st = Inr (v, st1) \<and>
           (\<forall>ys. emplace d l r (st1\<lparr>cells := cells st1 @ ys\<rparr>)
                   = Inr (v, st1\<lparr>cells := cells st1 @ ys\<rparr>))"
proof (cases "l = r")
  case True
  then show ?thesis by (simp add: emplace_def)
next
  case False
  from emplace_bound[OF assms False, of d] obtain a st1 where
    e: "emplace d l r st = Inr (Addr a, st1)"
    and ix: "index_of (s, \<lparr>depth = d, negative = l, positive = r\<rparr>) (cells st1) = Some a"
    and s: "s_factors st1 = Some s" by blast
  have "emplace d l r (st1\<lparr>cells := cells st1 @ ys\<rparr>) = Inr (Addr a, st1\<lparr>cells := cells st1 @ ys\<rparr>)"
    for ys
    using index_of_append[OF ix, of ys] s False by (simp add: emplace_def Let_def)
  with e show ?thesis by blast
qed

lemma emplace_differ:
  assumes "s_factors st = Some s" "l \<noteq> r" "l' \<noteq> r'" "(d, l, r) \<noteq> (d', l', r')"
  shows "\<exists>a st1 b st2. emplace d l r st = Inr (Addr a, st1) \<and>
           emplace d' l' r' st1 = Inr (Addr b, st2) \<and> a \<noteq> b"
proof -
  from emplace_bound[OF assms(1,2), of d] obtain a st1 where
    e1: "emplace d l r st = Inr (Addr a, st1)" and a: "a < length (cells st1)"
    and ca: "cells st1 ! a = (s, \<lparr>depth = d, negative = l, positive = r\<rparr>)"
    and s1: "s_factors st1 = Some s" by blast
  from emplace_bound[OF s1 assms(3), of d'] obtain b st2 ys where
    e2: "emplace d' l' r' st1 = Inr (Addr b, st2)"
    and cb: "cells st2 ! b = (s, \<lparr>depth = d', negative = l', positive = r'\<rparr>)"
    and ext: "cells st2 = cells st1 @ ys" by blast
  from a ca ext have "cells st2 ! a = (s, \<lparr>depth = d, negative = l, positive = r\<rparr>)"
    by (simp add: nth_append)
  with cb assms(4) have "a \<noteq> b" by auto
  with e1 e2 show ?thesis by blast
qed

lemma reachable_ordered_canonical:
  assumes "reachable st" "ordered_in (cells st) s x" "ordered_in (cells st) s y"
  shows "(\<forall>env. denote (cells st) x env = denote (cells st) y env) \<longleftrightarrow> x = y"
proof
  assume eq: "\<forall>env. denote (cells st) x env = denote (cells st) y env"
  from reachable_heap_inv[OF assms(1)] have "distinct (cells st)"
    "\<forall>c\<in>set (cells st). negative (snd c) \<noteq> positive (snd c)"
    by (simp_all add: heap_inv_def reduced_def)
  from ordered_canonical[OF this assms(2,3) eq] show "x = y" .
qed simp

lemma reachable_ex_dup: "reachable ex_dup"
proof -
  have "emplace 0 ZERO (Addr 0) ex_lit = Inr (Addr 1, ex_dup)"
    by (simp add: emplace_def ex_lit_def ex_dup_def)
  moreover have "valid_ref ex_lit ZERO" "valid_ref ex_lit (Addr 0)"
    by (simp_all add: valid_ref_def ex_lit_def)
  ultimately show ?thesis using reachable_ex_lit r_emplace by blast
qed

lemma in_store_append_iff:
  "rank r \<le> length h \<Longrightarrow> in_store (h @ ys) s r \<longleftrightarrow> in_store h s r"
proof (induction "rank r" arbitrary: r rule: less_induct)
  case less
  show ?case
  proof (cases r)
    case (Addr a)
    with less.prems have a: "a < length h" by simp
    let ?nd = "snd (h ! a)"
    show ?thesis
    proof (cases "rank (negative ?nd) \<le> a \<and> rank (positive ?nd) \<le> a")
      case True
      with a Addr have "rank (negative ?nd) < rank r" "rank (negative ?nd) \<le> length h"
        "rank (positive ?nd) < rank r" "rank (positive ?nd) \<le> length h" by simp_all
      from less.hyps[OF this(1,2)] less.hyps[OF this(3,4)] a Addr show ?thesis
        by (simp add: in_store_Addr nth_append)
    next
      case False
      with a Addr show ?thesis by (auto simp: in_store_Addr nth_append)
    qed
  qed simp_all
qed

lemma emplace_in_store:
  assumes "s_factors st = Some s" "children_before (cells st)"
    "in_store (cells st) s lo" "in_store (cells st) s hi" "emplace d lo hi st = Inr (v, st')"
  shows "in_store (cells st') s v"
proof (cases "lo = hi")
  case True
  with assms(5) have "v = lo" "st' = st" by (simp_all add: emplace_def)
  with assms(3) show ?thesis by simp
next
  case False
  from emplace_bound[OF assms(1) False, of d] assms(5) obtain a ys where
    v: "v = Addr a" and a: "a < length (cells st')"
    and c: "cells st' ! a = (s, \<lparr>depth = d, negative = lo, positive = hi\<rparr>)"
    and ys: "cells st' = cells st @ ys" by auto
  from emplace_valid[OF assms(2) in_store_valid[OF assms(3)] in_store_valid[OF assms(4)]
      assms(5)]
  have "children_before (cells st')" by simp
  with a c have r: "rank lo \<le> a" "rank hi \<le> a"
    unfolding children_before_def by (metis node.select_convs(2,3) snd_conv)+
  have "in_store (cells st') s lo" "in_store (cells st') s hi"
    using assms(3,4) by (simp_all add: ys in_store_append)
  with a c r v show ?thesis by (simp add: in_store_Addr)
qed

lemma invert_c_in_store:
  "s_factors st = Some s \<Longrightarrow> children_before (cells st) \<Longrightarrow> rank x \<le> length (cells st)
   \<Longrightarrow> \<forall>k w. c k = Some w \<longrightarrow> in_store (cells st) s w
   \<Longrightarrow> invert_c n c x st = Inr (v, c', st')
   \<Longrightarrow> in_store (cells st') s v \<and> (\<forall>k w. c' k = Some w \<longrightarrow> in_store (cells st') s w)"
proof (induction n arbitrary: c x st v c' st')
  case 0
  from invert_c_cases[OF "0.prems"(5)] "0.prems"(1-4) show ?case by auto
next
  case (Suc n)
  note bound = Suc.prems(1) and cb = Suc.prems(2) and rx = Suc.prems(3) and co = Suc.prems(4)
  have cv: "\<forall>k w. c k = Some w \<longrightarrow> rank w \<le> length (cells st)"
    using co in_store_valid by blast
  from invert_c_cases[OF Suc.prems(5)] show ?case
  proof (elim disjE conjE exE)
    fix k nd l c1 st1 r c2 st2
    assume k: "Suc n = Suc k" and xn: "x \<noteq> ZERO" "x \<noteq> ONE"
      and d: "deref st x = Some nd"
      and l: "invert_c k c (negative nd) st = Inr (l, c1, st1)"
      and r: "invert_c k c1 (positive nd) st1 = Inr (r, c2, st2)"
      and e: "emplace (depth nd) l r st2 = Inr (v, st')"
      and c': "c' = c2(x \<mapsto> v)"
    from k have kn: "k = n" by simp
    from xn d obtain a where a: "x = Addr a" "a < length (cells st)" "nd = snd (cells st ! a)"
      by (cases x) (auto simp: deref_def split: if_splits)
    with children_before_kids[OF cb, of a]
    have kids: "rank (negative nd) \<le> length (cells st)"
      "rank (positive nd) \<le> length (cells st)" by simp_all
    from Suc.IH[OF bound cb kids(1) co l[unfolded kn]]
    have 1: "in_store (cells st1) s l" "\<forall>k w. c1 k = Some w \<longrightarrow> in_store (cells st1) s w"
      by simp_all
    from invert_c_preserves[of "\<lambda>t. s_factors t = Some s", OF emplace_s_factors bound l]
    have b1: "s_factors st1 = Some s" .
    from invert_c_valid[OF cb kids(1) cv l]
    obtain ys1 where cb1: "children_before (cells st1)" and e1: "cells st1 = cells st @ ys1"
      by auto
    from kids(2) e1 have k2: "rank (positive nd) \<le> length (cells st1)" by simp
    from Suc.IH[OF b1 cb1 k2 1(2) r[unfolded kn]]
    have 2: "in_store (cells st2) s r" "\<forall>k w. c2 k = Some w \<longrightarrow> in_store (cells st2) s w"
      by simp_all
    from invert_c_preserves[of "\<lambda>t. s_factors t = Some s", OF emplace_s_factors b1 r]
    have b2: "s_factors st2 = Some s" .
    have cv1: "\<forall>k w. c1 k = Some w \<longrightarrow> rank w \<le> length (cells st1)"
      using 1(2) in_store_valid by blast
    from invert_c_valid[OF cb1 k2 cv1 r]
    obtain ys2 where cb2: "children_before (cells st2)" and e2: "cells st2 = cells st1 @ ys2"
      by auto
    from 1(1) e2 have l2: "in_store (cells st2) s l" by (simp add: in_store_append)
    from emplace_in_store[OF b2 cb2 l2 2(1) e] have v: "in_store (cells st') s v" .
    from emplace_cases[OF e] obtain ys3 where e3: "cells st' = cells st2 @ ys3" by auto
    from 2(2) e3 have "\<forall>k w. c2 k = Some w \<longrightarrow> in_store (cells st') s w"
      by (simp add: in_store_append)
    with v have "\<forall>k w. c' k = Some w \<longrightarrow> in_store (cells st') s w" unfolding c' by simp
    with v show ?thesis by simp
  qed (use Suc.prems(1-4) in auto)
qed

lemma invert_twice_exact:
  assumes "reachable st" "s_factors st = Some s" "valid_ref st x" "rank x \<le> n"
  shows "\<exists>y st1. invert n x st = Inr (y, st1) \<and>
           (\<forall>m. rank y \<le> m \<longrightarrow>
              (\<exists>z st2. invert m y st1 = Inr (z, st2) \<and> (z = x \<longleftrightarrow> in_store (cells st) s x)))"
proof -
  from reachable_heap_inv[OF assms(1)] have cb: "children_before (cells st)"
    by (simp add: heap_inv_def)
  from assms(3) have rx: "rank x \<le> length (cells st)" by (simp add: valid_ref_rank)
  have cv: "\<forall>k w. Map.empty k = Some w \<longrightarrow> rank w \<le> length (cells st)" by simp
  from invert_c_total[OF assms(2) cb rx cv assms(4)]
  obtain y c1 st1 where i1: "invert_c n Map.empty x st = Inr (y, c1, st1)" by blast
  then have i1': "invert n x st = Inr (y, st1)" by (simp add: invert_def)
  from invert_c_valid[OF cb rx cv i1] obtain ys1 where cb1: "children_before (cells st1)"
    and e1: "cells st1 = cells st @ ys1" and ry: "rank y \<le> length (cells st1)" by auto
  from invert_c_preserves[of "\<lambda>t. s_factors t = Some s", OF emplace_s_factors assms(2) i1]
  have b1: "s_factors st1 = Some s" .
  have cv1: "\<forall>k w. Map.empty k = Some w \<longrightarrow> rank w \<le> length (cells st1)" by simp
  have "\<exists>z st2. invert m y st1 = Inr (z, st2) \<and> (z = x \<longleftrightarrow> in_store (cells st) s x)"
    if m: "rank y \<le> m" for m
  proof -
    from invert_c_total[OF b1 cb1 ry cv1 m]
    obtain z c2 st2 where i2: "invert_c m Map.empty y st1 = Inr (z, c2, st2)" by blast
    then have i2': "invert m y st1 = Inr (z, st2)" by (simp add: invert_def)
    from invert_c_extends[OF i2] obtain ys2 where e2: "cells st2 = cells st1 @ ys2" by blast
    have "z = x \<longleftrightarrow> in_store (cells st) s x"
    proof
      assume zx: "z = x"
      from invert_c_in_store[OF b1 cb1 ry _ i2] have "in_store (cells st2) s z" by simp
      with zx have "in_store (cells st @ (ys1 @ ys2)) s x" by (simp add: e1 e2)
      with rx show "in_store (cells st) s x" by (simp only: in_store_append_iff)
    next
      assume ins: "in_store (cells st) s x"
      from invert_involution[OF assms(1,2) ins assms(4)] i1' m i2' show "z = x" by auto
    qed
    with i2' show ?thesis by blast
  qed
  with i1' show ?thesis by blast
qed





lemma deref_s_factors [simp]: "deref (st\<lparr>s_factors := b\<rparr>) r = deref st r"
  by (cases r) (simp_all add: deref_def)




lemma join_c_s_factors:
  "join_c n c I A x y st = Inr (v, c', st') \<Longrightarrow> s_factors st' = s_factors st"
proof -
  assume j: "join_c n c I A x y st = Inr (v, c', st')"
  have step: "s_factors t' = s_factors st"
    if "s_factors t = s_factors st" "emplace d l r t = Inr (v, t')" for d l r t v t'
    using emplace_cases[OF that(2)] that(1) by auto
  from join_c_preserves[of "\<lambda>t. s_factors t = s_factors st", OF step refl j] show ?thesis .
qed






lemma ex_m_steps:
  "snd (bind (Some 1) ex_two) = ex_m0"
  "disjoin 1 (Addr 0) (Addr 1) [] ex_m0 = Inr (Addr 2, ex_m1)"
  "literal 1 False ex_m1 = Inr (Addr 3, ex_m2)"
  "disjoin 1 (Addr 0) (Addr 3) [] ex_m2 = Inr (Addr 4, ex_m3)"
  by (simp_all add: bind_def disjoin_def join_v.simps join_c.simps literal_def deref_def
      emplace_def ex_two_def ex_m0_def ex_m1_def ex_m2_def ex_m3_def Let_def)

lemma reachable_ex_m1: "reachable ex_m1"
proof -
  from r_bind[OF reachable_ex_two, of "Some 1"] have 0: "reachable ex_m0"
    unfolding ex_m_steps(1) .
  have v: "valid_ref ex_m0 ZERO" "valid_ref ex_m0 ONE" "valid_ref ex_m0 (Addr 0)"
    "valid_ref ex_m0 (Addr 1)" "\<forall>z\<in>set []. valid_ref ex_m0 z"
    by (simp_all add: valid_ref_def ex_m0_def)
  from r_join[OF 0 v(1,2,3,4,5)] ex_m_steps(2) show ?thesis
    by (simp add: disjoin_def)
qed

lemma reachable_ex_m3: "reachable ex_m3"
proof -
  from r_literal[OF reachable_ex_m1 ex_m_steps(3)] have 2: "reachable ex_m2" .
  have v: "valid_ref ex_m2 ZERO" "valid_ref ex_m2 ONE" "valid_ref ex_m2 (Addr 0)"
    "valid_ref ex_m2 (Addr 3)" "\<forall>z\<in>set []. valid_ref ex_m2 z"
    by (simp_all add: valid_ref_def ex_m2_def)
  from r_join[OF 2 v(1,2,3,4,5)] ex_m_steps(4) show ?thesis
    by (simp add: disjoin_def)
qed

lemma emplace_extends': "emplace d l r st = Inr (v, st') \<Longrightarrow> \<exists>ys. cells st' = cells st @ ys"
  by (drule emplace_cases) auto

lemma join_v_extends:
  assumes "join_v n I A x y zs st = Inr (v, st')"
  shows "\<exists>ys. cells st' = cells st @ ys"
proof -
  have step: "\<exists>ys. cells t' = cells st @ ys"
    if "\<exists>ys. cells t = cells st @ ys" "emplace d l r t = Inr (v, t')" for d l r t v t'
    using that emplace_extends[of t "cells st" d l r v t'] by blast
  have init: "\<exists>ys. cells st = cells st @ ys" by simp
  from join_v_preserves[of "\<lambda>t. \<exists>ys. cells t = cells st @ ys", OF step init assms]
  show ?thesis .
qed

lemma primitives_extend:
  assumes "emplace d l r st = Inr (v, st') \<or> literal i b st = Inr (v, st') \<or>
       invert n x st = Inr (v, st') \<or> conjoin n x y zs st = Inr (v, st') \<or>
       disjoin n x y zs st = Inr (v, st')"
  shows "\<exists>ys. cells st' = cells st @ ys"
  using assms
proof (elim disjE)
  assume "invert n x st = Inr (v, st')"
  then obtain c where "invert_c n Map.empty x st = Inr (v, c, st')"
    by (auto simp: invert_def bindE_Inr_iff)
  then show ?thesis by (rule invert_c_extends)
qed (auto simp: literal_def conjoin_def disjoin_def dest: emplace_extends' join_v_extends)





lemma ordered_calls_return:
  assumes "reachable st" "s_factors st = Some s"
  shows "(\<exists>w st1. literal i b st = Inr (w, st1)) \<and>
         (ordered_in (cells st) s x \<longrightarrow>
            (\<forall>m. rank x \<le> m \<longrightarrow> (\<exists>w st1. invert m x st = Inr (w, st1)))) \<and>
         (ordered_in (cells st) s x \<longrightarrow> ordered_in (cells st) s y \<longrightarrow>
          (\<forall>z\<in>set zs. ordered_in (cells st) s z) \<longrightarrow>
            (\<exists>N. \<forall>m. N \<le> m \<longrightarrow> (\<exists>w st1. conjoin m x y zs st = Inr (w, st1))) \<and>
            (\<exists>N. \<forall>m. N \<le> m \<longrightarrow> (\<exists>w st1. disjoin m x y zs st = Inr (w, st1))))"
proof (intro conjI impI allI)
  show "\<exists>w st1. literal i b st = Inr (w, st1)"
    unfolding literal_def by (rule emplace_total[OF assms(2)])
next
  fix m assume "ordered_in (cells st) s x" "rank x \<le> m"
  then have "valid_ref st x" by (simp add: valid_ref_rank ordered_in_valid)
  from invert_total[OF assms this \<open>rank x \<le> m\<close>]
  show "\<exists>w st1. invert m x st = Inr (w, st1)" by blast
next
  assume o: "ordered_in (cells st) s x" "ordered_in (cells st) s y"
    "\<forall>z\<in>set zs. ordered_in (cells st) s z"
  then have v: "valid_ref st x" "valid_ref st y" "\<forall>z\<in>set zs. valid_ref st z"
    by (auto simp: valid_ref_rank intro: ordered_in_valid)
  from join_v_total_valid[where I = ONE and A = ZERO, OF _ assms v]
  show "\<exists>N. \<forall>m. N \<le> m \<longrightarrow> (\<exists>w st1. conjoin m x y zs st = Inr (w, st1))"
    unfolding conjoin_def by blast
  from join_v_total_valid[where I = ZERO and A = ONE, OF _ assms v]
  show "\<exists>N. \<forall>m. N \<le> m \<longrightarrow> (\<exists>w st1. disjoin m x y zs st = Inr (w, st1))"
    unfolding disjoin_def by blast
qed

section \<open>Properties\<close>

text \<open>
  Claim C7. For every node \<open>n\<close>, in every state and with any fuel:
  \<open>disjoin(n, ZERO)\<close> is \<open>n\<close>, \<open>disjoin(n, ONE)\<close> is \<open>ONE\<close>,
  \<open>conjoin(n, ONE)\<close> is \<open>n\<close> and \<open>conjoin(n, ZERO)\<close> is \<open>ZERO\<close>;
  each call returns the exact reference and leaves the state as it was, so it neither
  recurses nor touches a store.
\<close>

theorem join_identity_annihilator:
  "disjoin fuel n ZERO [] st = Inr (n, st) \<and>
   disjoin fuel n ONE [] st = Inr (ONE, st) \<and>
   conjoin fuel n ONE [] st = Inr (n, st) \<and>
   conjoin fuel n ZERO [] st = Inr (ZERO, st)"
  by (simp add: disjoin_def conjoin_def join_v.simps join_c.simps)

text \<open>
  Claim C10. For every depth \<open>d\<close> and child \<open>c\<close>, \<open>emplace(d, c, c)\<close> returns
  \<open>c\<close> and leaves the state as it was, in both namespaces, also when no store is
  bound: the test for equal children comes before the access to \<open>s_factors\<close>.
\<close>

theorem emplace_equal_children_needs_no_store:
  "emplace d c c (st\<lparr>s_factors := None\<rparr>) = Inr (c, st\<lparr>s_factors := None\<rparr>) \<and>
   dag_emplace d c c (st\<lparr>s_factors := None\<rparr>) = Inr (c, st\<lparr>s_factors := None\<rparr>) \<and>
   emplace d c c st = Inr (c, st) \<and> dag_emplace d c c st = Inr (c, st)"
  by (simp add: emplace_def dag_emplace_def)

text \<open>
  Claim C3. For every depth \<open>d\<close> and child \<open>c\<close>, \<open>emplace(d, c, c)\<close> returns
  \<open>c\<close> and inserts nothing; and in every state reachable through \<open>bind\<close>,
  \<open>emplace\<close>, \<open>literal\<close>, \<open>invert\<close> and \<open>join\<close>, no stored node has its
  negative child equal to its positive child.
\<close>

theorem reduction_invariant:
  "emplace d c c st = Inr (c, st) \<and>
   (reachable st \<longrightarrow> (\<forall>n\<in>set (cells st). negative (snd n) \<noteq> positive (snd n)))"
  using reachable_reduced[of st] by (simp add: emplace_def reduced_def)

theorem reduction_invariant_witness:
  "reachable ex_lit \<and> cells ex_lit = [(0, \<lparr>depth = 0, negative = ZERO, positive = ONE\<rparr>)] \<and>
   emplace 7 (Addr 0) (Addr 0) ex_lit = Inr (Addr 0, ex_lit) \<and>
   negative (snd (cells ex_lit ! 0)) \<noteq> positive (snd (cells ex_lit ! 0))"
  using reduction_invariant[of 7 "Addr 0" ex_lit] reachable_ex_lit
  by (simp add: ex_lit_def)

text \<open>
  Claim C6. With a store bound, \<open>literal(i, true)\<close> returns a node with depth
  \<open>i\<close>, negative child \<open>ZERO\<close> and positive child \<open>ONE\<close>, and
  \<open>literal(i, false)\<close> one with depth \<open>i\<close>, negative child \<open>ONE\<close> and
  positive child \<open>ZERO\<close>; a repeated call with the same index and sign under the same
  bound store, also after further insertions, returns the same reference and inserts
  nothing.
\<close>

theorem literal_encoding:
  assumes "s_factors st = Some s"
  shows "(\<exists>a st'. literal i True st = Inr (Addr a, st')
           \<and> deref st' (Addr a) = Some \<lparr>depth = i, negative = ZERO, positive = ONE\<rparr>
           \<and> (\<forall>ys. literal i True (st'\<lparr>cells := cells st' @ ys\<rparr>)
                      = Inr (Addr a, st'\<lparr>cells := cells st' @ ys\<rparr>)))
       \<and> (\<exists>a st'. literal i False st = Inr (Addr a, st')
           \<and> deref st' (Addr a) = Some \<lparr>depth = i, negative = ONE, positive = ZERO\<rparr>
           \<and> (\<forall>ys. literal i False (st'\<lparr>cells := cells st' @ ys\<rparr>)
                      = Inr (Addr a, st'\<lparr>cells := cells st' @ ys\<rparr>)))"
  using literal_node[OF assms, of i True] literal_node[OF assms, of i False]
  by simp

theorem literal_encoding_witness:
  "s_factors ex_empty = Some 0 \<and>
   (\<exists>a st'. literal 3 True ex_empty = Inr (Addr a, st')
           \<and> deref st' (Addr a) = Some \<lparr>depth = 3, negative = ZERO, positive = ONE\<rparr>
           \<and> (\<forall>ys. literal 3 True (st'\<lparr>cells := cells st' @ ys\<rparr>)
                      = Inr (Addr a, st'\<lparr>cells := cells st' @ ys\<rparr>)))
       \<and> (\<exists>a st'. literal 3 False ex_empty = Inr (Addr a, st')
           \<and> deref st' (Addr a) = Some \<lparr>depth = 3, negative = ONE, positive = ZERO\<rparr>
           \<and> (\<forall>ys. literal 3 False (st'\<lparr>cells := cells st' @ ys\<rparr>)
                      = Inr (Addr a, st'\<lparr>cells := cells st' @ ys\<rparr>)))"
proof -
  have h: "s_factors ex_empty = Some 0" by (simp add: ex_empty_def)
  from literal_encoding[OF h, of 3] h show ?thesis by simp
qed

text \<open>
  Claim C8. \<open>bind\<close> replaces the current target by its argument and returns the
  target bound before. While store \<open>A\<close> is bound, every node that \<open>emplace\<close>,
  \<open>literal\<close>, \<open>invert\<close> or \<open>join\<close> creates is inserted into \<open>A\<close>: the
  contents of every other store stay as they were. A value built under \<open>A\<close> and
  built again after binding another store \<open>B\<close> gives two different references, one
  node in each store.
\<close>

theorem session_isolation:
  "bind t st = (s_factors st, st\<lparr>s_factors := t\<rparr>) \<and>
   (s_factors st = Some A \<longrightarrow>
      (emplace d l r st = Inr (v, st') \<or> literal i b st = Inr (v, st') \<or>
       invert n x st = Inr (v, st') \<or> join_v n I An x y zs st = Inr (v, st')) \<longrightarrow>
      (\<exists>ys. cells st' = cells st @ ys \<and> (\<forall>c\<in>set ys. fst c = A)) \<and>
      (\<forall>B. B \<noteq> A \<longrightarrow> store_nodes st' B = store_nodes st B)) \<and>
   (s_factors st = Some A \<longrightarrow> B \<noteq> A \<longrightarrow> l \<noteq> r \<longrightarrow>
      (\<exists>a stA b stB. emplace d l r st = Inr (Addr a, stA) \<and>
         emplace d l r (snd (bind (Some B) stA)) = Inr (Addr b, stB) \<and> a \<noteq> b \<and>
         cells stB ! a = (A, \<lparr>depth = d, negative = l, positive = r\<rparr>) \<and>
         cells stB ! b = (B, \<lparr>depth = d, negative = l, positive = r\<rparr>)))"
proof (intro conjI impI)
  show "bind t st = (s_factors st, st\<lparr>s_factors := t\<rparr>)" by (simp add: bind_def)
next
  assume A: "s_factors st = Some A"
    and op: "emplace d l r st = Inr (v, st') \<or> literal i b st = Inr (v, st') \<or>
       invert n x st = Inr (v, st') \<or> join_v n I An x y zs st = Inr (v, st')"
  from op have o: "only_into A st st'"
    using emplace_only_into[OF A] invert_only_into[OF A] join_v_only_into[OF A]
    by (auto simp: literal_def)
  then show "\<exists>ys. cells st' = cells st @ ys \<and> (\<forall>c\<in>set ys. fst c = A)"
    by (simp add: only_into_def)
  from o show "\<forall>B. B \<noteq> A \<longrightarrow> store_nodes st' B = store_nodes st B"
    by (simp add: only_into_store_nodes)
next
  assume A: "s_factors st = Some A" and BA: "B \<noteq> A" and lr: "l \<noteq> r"
  let ?nd = "\<lparr>depth = d, negative = l, positive = r\<rparr>"
  from emplace_bound[OF A lr, of d] obtain a stA where
    e1: "emplace d l r st = Inr (Addr a, stA)" and a: "a < length (cells stA)"
    and ca: "cells stA ! a = (A, ?nd)" by blast
  have B: "s_factors (snd (bind (Some B) stA)) = Some B" by (simp add: bind_def)
  from emplace_bound[OF B lr, of d] obtain b stB where
    e2: "emplace d l r (snd (bind (Some B) stA)) = Inr (Addr b, stB)"
    and cb: "cells stB ! b = (B, ?nd)"
    and ext: "\<exists>ys. cells stB = cells (snd (bind (Some B) stA)) @ ys" by blast
  from ext a ca have ca': "cells stB ! a = (A, ?nd)"
    by (auto simp: bind_def nth_append)
  from ca' cb BA have "a \<noteq> b" by auto
  with e1 e2 ca' cb
  show "\<exists>a stA b stB. emplace d l r st = Inr (Addr a, stA) \<and>
         emplace d l r (snd (bind (Some B) stA)) = Inr (Addr b, stB) \<and> a \<noteq> b \<and>
         cells stB ! a = (A, ?nd) \<and> cells stB ! b = (B, ?nd)" by blast
qed

theorem session_isolation_witness:
  "bind (Some 1) ex_lit = (Some 0, ex_lit\<lparr>s_factors := Some 1\<rparr>) \<and>
   s_factors ex_empty = Some 0 \<and> (1::nat) \<noteq> 0 \<and> ZERO \<noteq> ONE \<and>
   emplace 0 ZERO ONE ex_empty = Inr (Addr 0, ex_lit) \<and>
   (\<exists>ys. cells ex_lit = cells ex_empty @ ys \<and> (\<forall>c\<in>set ys. fst c = 0)) \<and>
   store_nodes ex_lit 1 = store_nodes ex_empty 1 \<and>
   (\<exists>a stA b stB. emplace 0 ZERO ONE ex_empty = Inr (Addr a, stA) \<and>
         emplace 0 ZERO ONE (snd (bind (Some 1) stA)) = Inr (Addr b, stB) \<and> a \<noteq> b \<and>
         cells stB ! a = (0, \<lparr>depth = 0, negative = ZERO, positive = ONE\<rparr>) \<and>
         cells stB ! b = (1, \<lparr>depth = 0, negative = ZERO, positive = ONE\<rparr>))"
proof -
  have h1: "s_factors ex_empty = Some 0" by (simp add: ex_empty_def)
  have h2: "emplace 0 ZERO ONE ex_empty = Inr (Addr 0, ex_lit)"
    by (simp add: emplace_def ex_empty_def ex_lit_def)
  have h3: "bind (Some 1) ex_lit = (Some 0, ex_lit\<lparr>s_factors := Some 1\<rparr>)"
    by (simp add: bind_def ex_lit_def)
  from session_isolation[where st = ex_empty and A = 0 and B = 1 and d = 0 and l = ZERO
      and r = ONE and v = "Addr 0" and st' = ex_lit] h1 h2 h3
  show ?thesis by simp
qed

text \<open>
  Claim C1. In a reachable state with a store bound, for all valid references \<open>x\<close> and
  \<open>y\<close> (of whatever depths, in whatever stores) and fuel at least
  \<open>rank x + rank y\<close>, \<open>conjoin(x, y)\<close> returns a diagram that denotes the conjunction
  of the functions of \<open>x\<close> and \<open>y\<close> under every assignment, and \<open>disjoin(x, y)\<close> one that
  denotes their disjunction; the operands denote what they did before the call.
\<close>

theorem conjoin_disjoin_denote:
  assumes "reachable st" "s_factors st = Some s" "valid_ref st x" "valid_ref st y"
    "rank x + rank y \<le> fuel"
  shows "(\<exists>v st'. conjoin fuel x y [] st = Inr (v, st') \<and> valid_ref st' v \<and>
           (\<forall>env. denote (cells st') v env
                    = (denote (cells st') x env \<and> denote (cells st') y env)
                \<and> denote (cells st') x env = denote (cells st) x env
                \<and> denote (cells st') y env = denote (cells st) y env))
       \<and> (\<exists>v st'. disjoin fuel x y [] st = Inr (v, st') \<and> valid_ref st' v \<and>
           (\<forall>env. denote (cells st') v env
                    = (denote (cells st') x env \<or> denote (cells st') y env)
                \<and> denote (cells st') x env = denote (cells st) x env
                \<and> denote (cells st') y env = denote (cells st) y env))"
  using join_binary_denotes[of ONE ZERO, OF _ assms] join_binary_denotes[of ZERO ONE, OF _ assms]
  by (simp add: conjoin_def disjoin_def bop_def)

theorem conjoin_disjoin_denote_witness:
  "reachable ex_two \<and> s_factors ex_two = Some 0 \<and> valid_ref ex_two (Addr 0) \<and>
   valid_ref ex_two (Addr 1) \<and> rank (Addr 0) + rank (Addr 1) \<le> 3 \<and>
   depth (snd (cells ex_two ! 0)) \<noteq> depth (snd (cells ex_two ! 1)) \<and>
   (\<exists>v st'. conjoin 3 (Addr 0) (Addr 1) [] ex_two = Inr (v, st') \<and> valid_ref st' v \<and>
           (\<forall>env. denote (cells st') v env
                    = (denote (cells st') (Addr 0) env \<and> denote (cells st') (Addr 1) env)
                \<and> denote (cells st') (Addr 0) env = denote (cells ex_two) (Addr 0) env
                \<and> denote (cells st') (Addr 1) env = denote (cells ex_two) (Addr 1) env))
       \<and> (\<exists>v st'. disjoin 3 (Addr 0) (Addr 1) [] ex_two = Inr (v, st') \<and> valid_ref st' v \<and>
           (\<forall>env. denote (cells st') v env
                    = (denote (cells st') (Addr 0) env \<or> denote (cells st') (Addr 1) env)
                \<and> denote (cells st') (Addr 0) env = denote (cells ex_two) (Addr 0) env
                \<and> denote (cells st') (Addr 1) env = denote (cells ex_two) (Addr 1) env))"
proof -
  have h2: "s_factors ex_two = Some 0" by (simp add: ex_two_def)
  have h3: "valid_ref ex_two (Addr 0)" and h4: "valid_ref ex_two (Addr 1)"
    by (simp_all add: valid_ref_def ex_two_def)
  have h5: "rank (Addr 0) + rank (Addr 1) \<le> 3" by simp
  have h6: "depth (snd (cells ex_two ! 0)) \<noteq> depth (snd (cells ex_two ! 1))"
    by (simp add: ex_two_def)
  from conjoin_disjoin_denote[OF reachable_ex_two h2 h3 h4 h5] reachable_ex_two h2 h3 h4 h5 h6
  show ?thesis by blast
qed

text \<open>
  Claim C4, as stated, fails: a node built while one store was bound and complemented
  twice while another store is bound comes back as a different reference, a new node
  of the other store.
\<close>

theorem invert_twice_other_store_counterexample:
  "reachable ex_other \<and> valid_ref ex_other (Addr 0) \<and>
   invert 1 (Addr 0) ex_other = Inr (Addr 1, ex_other_inv) \<and>
   invert 1 (Addr 1) ex_other_inv = Inr (Addr 2, ex_other_inv2) \<and>
   Addr 2 \<noteq> Addr 0"
proof -
  have "invert 1 (Addr 0) ex_other = Inr (Addr 1, ex_other_inv)"
    by (simp add: invert_def invert_c.simps deref_def emplace_def ex_other_def ex_other_inv_def
        Let_def)
  moreover have "invert 1 (Addr 1) ex_other_inv = Inr (Addr 2, ex_other_inv2)"
    by (simp add: invert_def invert_c.simps deref_def emplace_def ex_other_inv_def
        ex_other_inv2_def Let_def)
  moreover have "valid_ref ex_other (Addr 0)" by (simp add: valid_ref_def ex_other_def)
  ultimately show ?thesis using reachable_ex_other by simp
qed

text \<open>
  Claim C4, amended. \<open>invert(ZERO)\<close> is \<open>ONE\<close> and \<open>invert(ONE)\<close> is \<open>ZERO\<close> in every
  state. In a reachable state every node was allocated after its children, and with
  store \<open>s\<close> bound, for every valid reference \<open>x\<close>, \<open>invert(x)\<close> succeeds with fuel at
  least \<open>rank x\<close>, inverting its result succeeds with fuel at least the rank of that
  result, and the second result is the reference \<open>x\<close> itself if and only if
  \<open>in_store (cells st) s x\<close>: every node of the diagram \<open>x\<close>, the root and all its
  descendants down to the terminals, lives in \<open>s\<close> and was allocated after its
  children. So the second result is a different reference when \<open>x\<close> is a node of
  another store, and also when \<open>x\<close> is a node of \<open>s\<close> with a child node in another
  store.
\<close>

theorem invert_twice_same_iff_in_bound_store:
  assumes "reachable st" "s_factors st = Some s" "valid_ref st x" "rank x \<le> n"
  shows "invert k ZERO st0 = Inr (ONE, st0) \<and> invert k ONE st0 = Inr (ZERO, st0) \<and>
         (\<forall>a<length (cells st). rank (negative (snd (cells st ! a))) \<le> a
                                   \<and> rank (positive (snd (cells st ! a))) \<le> a) \<and>
         (\<exists>y st1. invert n x st = Inr (y, st1) \<and>
            (\<forall>m. rank y \<le> m \<longrightarrow>
               (\<exists>z st2. invert m y st1 = Inr (z, st2) \<and>
                  (z = x \<longleftrightarrow> in_store (cells st) s x))))"
proof -
  from reachable_heap_inv[OF assms(1)]
  have "\<forall>a<length (cells st). rank (negative (snd (cells st ! a))) \<le> a
                                   \<and> rank (positive (snd (cells st ! a))) \<le> a"
    by (simp add: heap_inv_def children_before_def)
  with invert_twice_exact[OF assms] show ?thesis
    by (simp add: invert_def invert_c.simps)
qed

theorem invert_twice_same_iff_in_bound_store_witness:
  "reachable ex_lit \<and> s_factors ex_lit = Some 0 \<and> valid_ref ex_lit (Addr 0) \<and>
   rank (Addr 0) \<le> 1 \<and> in_store (cells ex_lit) 0 (Addr 0) \<and>
   invert 0 ZERO ex_lit = Inr (ONE, ex_lit) \<and> invert 0 ONE ex_lit = Inr (ZERO, ex_lit) \<and>
   (\<exists>y st1. invert 1 (Addr 0) ex_lit = Inr (y, st1) \<and>
      (\<forall>m. rank y \<le> m \<longrightarrow> (\<exists>z st2. invert m y st1 = Inr (z, st2) \<and> z = Addr 0))) \<and>
   reachable ex_other \<and> s_factors ex_other = Some 1 \<and> valid_ref ex_other (Addr 0) \<and>
   \<not> in_store (cells ex_other) 1 (Addr 0) \<and>
   (\<exists>y st1. invert 1 (Addr 0) ex_other = Inr (y, st1) \<and>
      (\<forall>m. rank y \<le> m \<longrightarrow> (\<exists>z st2. invert m y st1 = Inr (z, st2) \<and> z \<noteq> Addr 0))) \<and>
   reachable ex_m1 \<and> s_factors ex_m1 = Some 1 \<and> valid_ref ex_m1 (Addr 2) \<and>
   rank (Addr 2) \<le> 3 \<and> fst (cells ex_m1 ! 2) = 1 \<and> \<not> in_store (cells ex_m1) 1 (Addr 2) \<and>
   rank (negative (snd (cells ex_m1 ! 2))) \<le> 2 \<and> rank (positive (snd (cells ex_m1 ! 2))) \<le> 2 \<and>
   (\<exists>y st1. invert 3 (Addr 2) ex_m1 = Inr (y, st1) \<and>
      (\<forall>m. rank y \<le> m \<longrightarrow> (\<exists>z st2. invert m y st1 = Inr (z, st2) \<and> z \<noteq> Addr 2)))"
proof -
  have h2: "s_factors ex_lit = Some 0" by (simp add: ex_lit_def)
  have h3: "valid_ref ex_lit (Addr 0)" by (simp add: valid_ref_def ex_lit_def)
  have h4: "rank (Addr 0) \<le> 1" by simp
  have h5: "in_store (cells ex_lit) 0 (Addr 0)" by (simp add: in_store_Addr ex_lit_def)
  have g2: "s_factors ex_other = Some 1" by (simp add: ex_other_def)
  have g3: "valid_ref ex_other (Addr 0)" by (simp add: valid_ref_def ex_other_def)
  have g5: "\<not> in_store (cells ex_other) 1 (Addr 0)" by (simp add: in_store_Addr ex_other_def)
  from invert_twice_same_iff_in_bound_store[OF reachable_ex_lit h2 h3 h4, of 0 ex_lit] h5
  have a: "invert 0 ZERO ex_lit = Inr (ONE, ex_lit)" "invert 0 ONE ex_lit = Inr (ZERO, ex_lit)"
    "\<exists>y st1. invert 1 (Addr 0) ex_lit = Inr (y, st1) \<and>
      (\<forall>m. rank y \<le> m \<longrightarrow> (\<exists>z st2. invert m y st1 = Inr (z, st2) \<and> z = Addr 0))"
    by simp_all
  from invert_twice_same_iff_in_bound_store[OF reachable_ex_other g2 g3 h4, of 0 ex_lit] g5
  have b: "\<exists>y st1. invert 1 (Addr 0) ex_other = Inr (y, st1) \<and>
      (\<forall>m. rank y \<le> m \<longrightarrow> (\<exists>z st2. invert m y st1 = Inr (z, st2) \<and> z \<noteq> Addr 0))"
    by simp
  have m2: "s_factors ex_m1 = Some 1" by (simp add: ex_m1_def)
  have m3: "valid_ref ex_m1 (Addr 2)" by (simp add: valid_ref_def ex_m1_def)
  have m4: "rank (Addr 2) \<le> 3" by simp
  have m5: "fst (cells ex_m1 ! 2) = 1" by (simp add: ex_m1_def)
  have m6: "\<not> in_store (cells ex_m1) 1 (Addr 2)" by (simp add: in_store_Addr ex_m1_def)
  from invert_twice_same_iff_in_bound_store[OF reachable_ex_m1 m2 m3 m4, of 0 ex_lit] m6
  have c: "\<exists>y st1. invert 3 (Addr 2) ex_m1 = Inr (y, st1) \<and>
      (\<forall>m. rank y \<le> m \<longrightarrow> (\<exists>z st2. invert m y st1 = Inr (z, st2) \<and> z \<noteq> Addr 2))"
    by simp
  have len: "2 < length (cells ex_m1)" by (simp add: ex_m1_def)
  from invert_twice_same_iff_in_bound_store[OF reachable_ex_m1 m2 m3 m4, of 0 ex_lit,
      THEN conjunct2, THEN conjunct2, THEN conjunct1] len
  have d: "rank (negative (snd (cells ex_m1 ! 2))) \<le> 2"
    "rank (positive (snd (cells ex_m1 ! 2))) \<le> 2"
    by blast+
  from reachable_ex_lit h2 h3 h4 h5 a reachable_ex_other g2 g3 g5 b reachable_ex_m1 m2 m3 m4
    m5 m6 d c
  show ?thesis by (intro conjI)
qed




text \<open>
  Claim C5, as stated, fails: the pairwise steps of one variadic call do not share a
  cache. In \<open>disjoin(a, b', a)\<close> the first step leaves the entry \<open>{a, b'}\<close> in its
  cache; the source enters the second step with an empty cache, where one shared cache
  would hold that entry.
\<close>

theorem variadic_join_cache_counterexample:
  "join_v_entry_caches 1 ZERO ONE (Addr 0) (Addr 1) [Addr 0] ex_two = [Map.empty, Map.empty] \<and>
   shared_entry_caches 1 Map.empty ZERO ONE (Addr 0) (Addr 1) [Addr 0] ex_two
     = [Map.empty, [{Addr 0, Addr 1} \<mapsto> Addr 2]] \<and>
   [{Addr 0, Addr 1} \<mapsto> Addr 2] \<noteq> (Map.empty :: ref set \<rightharpoonup> ref) \<and>
   join_v_entry_caches 1 ZERO ONE (Addr 0) (Addr 1) [Addr 0] ex_two
     \<noteq> shared_entry_caches 1 Map.empty ZERO ONE (Addr 0) (Addr 1) [Addr 0] ex_two"
proof -
  have ne: "[{Addr 0, Addr 1} \<mapsto> Addr 2] \<noteq> (Map.empty :: ref set \<rightharpoonup> ref)" by simp
  from ex_two_or_step2 obtain c where
    s2: "join_c 1 Map.empty ZERO ONE (Addr 2) (Addr 0) ex_two_or = Inr (Addr 2, c, ex_two_or)"
    by blast
  have 1: "join_v_entry_caches 1 ZERO ONE (Addr 0) (Addr 1) [Addr 0] ex_two
             = [Map.empty, Map.empty]"
    apply (subst join_v_entry_caches.simps)
    apply (subst ex_two_or_step)
    apply (simp only: sum.case prod.case list.case)
    apply (subst join_v_entry_caches.simps)
    apply (subst s2)
    apply (simp only: sum.case prod.case list.case)
    done
  have 2: "shared_entry_caches 1 Map.empty ZERO ONE (Addr 0) (Addr 1) [Addr 0] ex_two
             = [Map.empty, [{Addr 0, Addr 1} \<mapsto> Addr 2]]"
    apply (subst shared_entry_caches.simps)
    apply (subst ex_two_or_step)
    apply (simp only: sum.case prod.case list.case)
    apply (subst shared_entry_caches.simps)
    apply (simp add: join_c.simps deref_def emplace_def ex_two_or_def Let_def numeral_2_eq_2)
    done
  have 3: "join_v_entry_caches 1 ZERO ONE (Addr 0) (Addr 1) [Addr 0] ex_two
     \<noteq> shared_entry_caches 1 Map.empty ZERO ONE (Addr 0) (Addr 1) [Addr 0] ex_two"
    unfolding 1 2 using ne by (metis list.inject)
  from 1 2 ne 3 show ?thesis by (intro conjI)
qed

text \<open>
  Claim C5, amended. A variadic join over \<open>x, y, z, ...\<close> is the left fold of pairwise
  joins: it combines \<open>x\<close> and \<open>y\<close> and then joins the result with the remaining
  operands, which is a variadic call of its own. Every pairwise step is entered with a
  fresh, empty cache; no cache passes from one step to the next.
\<close>

theorem variadic_join_folds_with_fresh_caches:
  "join_v n I A x y (z # zs) st
     = bindE (join_v n I A x y [] st) (\<lambda>(l_junction, st'). join_v n I A l_junction z zs st') \<and>
   join_v_entry_caches n I A x y zs st
     = replicate (length (join_v_entry_caches n I A x y zs st)) Map.empty \<and>
   conjoin n x y (z # zs) st
     = bindE (conjoin n x y [] st) (\<lambda>(l_junction, st'). conjoin n l_junction z zs st') \<and>
   disjoin n x y (z # zs) st
     = bindE (disjoin n x y [] st) (\<lambda>(l_junction, st'). disjoin n l_junction z zs st')"
  using join_v_fold[of n _ _ x y z zs st] join_v_entry_caches_empty[of n I A x y zs st]
  by (simp add: conjoin_def disjoin_def)

text \<open>
  Claim C2, as stated, fails three times. A call of \<open>emplace\<close> with fields that differ
  from those of an earlier call can return the same reference: with equal children it
  returns the child, whatever the depth. Two different references of one session can
  denote the same function because \<open>emplace\<close> accepts a child that tests the variable of
  its parent again: \<open>emplace(0, ZERO, a)\<close> on the literal \<open>a\<close> of variable 0 is a second
  node for the function of \<open>a\<close>. And they can do so because a node built under the
  bound store keeps children of another store: with store 1 bound, \<open>disjoin(a, b')\<close>
  on the literals of store 0 and \<open>disjoin(a, b1')\<close> on the literal \<open>b1'\<close> just built in
  store 1 are two nodes of store 1 for one function.
\<close>

theorem emplace_canonicity_counterexample:
  "emplace 0 ZERO ONE ex_empty = Inr (Addr 0, ex_lit) \<and>
   emplace 7 (Addr 0) (Addr 0) ex_lit = Inr (Addr 0, ex_lit) \<and>
   (0 :: 32 word, ZERO, ONE) \<noteq> (7, Addr 0, Addr 0) \<and>
   reachable ex_dup \<and>
   emplace 0 ZERO (Addr 0) ex_lit = Inr (Addr 1, ex_dup) \<and>
   denote (cells ex_dup) (Addr 0) = denote (cells ex_dup) (Addr 1) \<and>
   Addr 0 \<noteq> Addr 1 \<and>
   reachable ex_m3 \<and>
   snd (bind (Some 1) ex_two) = ex_m0 \<and>
   disjoin 1 (Addr 0) (Addr 1) [] ex_m0 = Inr (Addr 2, ex_m1) \<and>
   literal 1 False ex_m1 = Inr (Addr 3, ex_m2) \<and>
   disjoin 1 (Addr 0) (Addr 3) [] ex_m2 = Inr (Addr 4, ex_m3) \<and>
   denote (cells ex_m3) (Addr 2) = denote (cells ex_m3) (Addr 4) \<and>
   Addr 2 \<noteq> Addr 4"
proof -
  have "denote (cells ex_dup) (Addr 0) env = denote (cells ex_dup) (Addr 1) env" for env
    by (simp add: denote.simps(3) ex_dup_def)
  then have 1: "denote (cells ex_dup) (Addr 0) = denote (cells ex_dup) (Addr 1)" by (rule ext)
  have "denote (cells ex_m3) (Addr 2) env = denote (cells ex_m3) (Addr 4) env" for env
    by (simp add: denote.simps(3) ex_m3_def)
  then have 2: "denote (cells ex_m3) (Addr 2) = denote (cells ex_m3) (Addr 4)" by (rule ext)
  have 3: "emplace 0 ZERO ONE ex_empty = Inr (Addr 0, ex_lit)"
    "emplace 7 (Addr 0) (Addr 0) ex_lit = Inr (Addr 0, ex_lit)"
    "emplace 0 ZERO (Addr 0) ex_lit = Inr (Addr 1, ex_dup)"
    by (simp_all add: emplace_def ex_empty_def ex_lit_def ex_dup_def)
  have 4: "(0 :: 32 word, ZERO, ONE) \<noteq> (7, Addr 0, Addr 0)" "Addr 0 \<noteq> Addr 1" "Addr 2 \<noteq> Addr 4"
    by simp_all
  from 3 4 1 2 reachable_ex_dup reachable_ex_m3 ex_m_steps show ?thesis by (intro conjI)
qed

text \<open>
  Claim C2, amended. Call a diagram an ordered diagram of store \<open>t\<close> when every one of
  its nodes, down to the terminals, lives in \<open>t\<close>, was allocated after its children and
  tests a smaller variable than its child nodes. In a reachable state with store \<open>s\<close>
  bound: two calls of \<open>emplace\<close> with equal fields return the identical reference, also
  after further insertions; two calls with different fields, each with two different
  children, return different references; two ordered diagrams of one store denote the
  same boolean function if and only if their references are identical; \<open>literal\<close>
  returns, and what it returns is an ordered diagram of \<open>s\<close>; when all their operands
  are ordered diagrams of \<open>s\<close>, \<open>invert\<close> (fuel at least \<open>rank x\<close>), \<open>conjoin\<close> and
  \<open>disjoin\<close> of any number of operands (enough fuel) return, and what they return,
  with any fuel, is an ordered diagram of \<open>s\<close>; and an ordered diagram of a store stays
  one in the state after any call of a primitive.
\<close>

theorem emplace_canonical_ordered:
  assumes "reachable st" "s_factors st = Some s"
  shows "(\<exists>v st1. emplace d l r st = Inr (v, st1) \<and>
            (\<forall>ys. emplace d l r (st1\<lparr>cells := cells st1 @ ys\<rparr>)
                    = Inr (v, st1\<lparr>cells := cells st1 @ ys\<rparr>))) \<and>
         (l \<noteq> r \<longrightarrow> l' \<noteq> r' \<longrightarrow> (d, l, r) \<noteq> (d', l', r') \<longrightarrow>
            (\<exists>a st1 b st2. emplace d l r st = Inr (Addr a, st1) \<and>
               emplace d' l' r' st1 = Inr (Addr b, st2) \<and> a \<noteq> b)) \<and>
         (ordered_in (cells st) t p \<longrightarrow> ordered_in (cells st) t q \<longrightarrow>
            ((\<forall>env. denote (cells st) p env = denote (cells st) q env) \<longleftrightarrow> p = q)) \<and>
         (literal i b st = Inr (v, st') \<longrightarrow> ordered_in (cells st') s v) \<and>
         (ordered_in (cells st) s x \<longrightarrow> invert n x st = Inr (v, st') \<longrightarrow>
            ordered_in (cells st') s v) \<and>
         (ordered_in (cells st) s x \<longrightarrow> ordered_in (cells st) s y \<longrightarrow>
          (\<forall>z\<in>set zs. ordered_in (cells st) s z) \<longrightarrow>
          conjoin n x y zs st = Inr (v, st') \<or> disjoin n x y zs st = Inr (v, st') \<longrightarrow>
            ordered_in (cells st') s v) \<and>
         (ordered_in (cells st) t p \<longrightarrow>
          emplace d l r st = Inr (v, st') \<or> literal i b st = Inr (v, st') \<or>
          invert n x st = Inr (v, st') \<or> conjoin n x y zs st = Inr (v, st') \<or>
          disjoin n x y zs st = Inr (v, st') \<longrightarrow>
            ordered_in (cells st') t p) \<and>
         (\<exists>w st1. literal i b st = Inr (w, st1)) \<and>
         (ordered_in (cells st) s x \<longrightarrow>
            (\<forall>m. rank x \<le> m \<longrightarrow> (\<exists>w st1. invert m x st = Inr (w, st1)))) \<and>
         (ordered_in (cells st) s x \<longrightarrow> ordered_in (cells st) s y \<longrightarrow>
          (\<forall>z\<in>set zs. ordered_in (cells st) s z) \<longrightarrow>
            (\<exists>N. \<forall>m. N \<le> m \<longrightarrow> (\<exists>w st1. conjoin m x y zs st = Inr (w, st1))) \<and>
            (\<exists>N. \<forall>m. N \<le> m \<longrightarrow> (\<exists>w st1. disjoin m x y zs st = Inr (w, st1))))"
proof -
  note R = ordered_calls_return[OF assms, of i b x y zs]
  have main: "(\<exists>v st1. emplace d l r st = Inr (v, st1) \<and>
            (\<forall>ys. emplace d l r (st1\<lparr>cells := cells st1 @ ys\<rparr>)
                    = Inr (v, st1\<lparr>cells := cells st1 @ ys\<rparr>))) \<and>
         (l \<noteq> r \<longrightarrow> l' \<noteq> r' \<longrightarrow> (d, l, r) \<noteq> (d', l', r') \<longrightarrow>
            (\<exists>a st1 b st2. emplace d l r st = Inr (Addr a, st1) \<and>
               emplace d' l' r' st1 = Inr (Addr b, st2) \<and> a \<noteq> b)) \<and>
         (ordered_in (cells st) t p \<longrightarrow> ordered_in (cells st) t q \<longrightarrow>
            ((\<forall>env. denote (cells st) p env = denote (cells st) q env) \<longleftrightarrow> p = q)) \<and>
         (literal i b st = Inr (v, st') \<longrightarrow> ordered_in (cells st') s v) \<and>
         (ordered_in (cells st) s x \<longrightarrow> invert n x st = Inr (v, st') \<longrightarrow>
            ordered_in (cells st') s v) \<and>
         (ordered_in (cells st) s x \<longrightarrow> ordered_in (cells st) s y \<longrightarrow>
          (\<forall>z\<in>set zs. ordered_in (cells st) s z) \<longrightarrow>
          conjoin n x y zs st = Inr (v, st') \<or> disjoin n x y zs st = Inr (v, st') \<longrightarrow>
            ordered_in (cells st') s v) \<and>
         (ordered_in (cells st) t p \<longrightarrow>
          emplace d l r st = Inr (v, st') \<or> literal i b st = Inr (v, st') \<or>
          invert n x st = Inr (v, st') \<or> conjoin n x y zs st = Inr (v, st') \<or>
          disjoin n x y zs st = Inr (v, st') \<longrightarrow>
            ordered_in (cells st') t p)"
  proof (intro conjI impI)
  show "\<exists>v st1. emplace d l r st = Inr (v, st1) \<and>
            (\<forall>ys. emplace d l r (st1\<lparr>cells := cells st1 @ ys\<rparr>)
                    = Inr (v, st1\<lparr>cells := cells st1 @ ys\<rparr>))"
    by (rule emplace_repeat[OF assms(2)])
next
  assume "l \<noteq> r" "l' \<noteq> r'" "(d, l, r) \<noteq> (d', l', r')"
  then show "\<exists>a st1 b st2. emplace d l r st = Inr (Addr a, st1) \<and>
               emplace d' l' r' st1 = Inr (Addr b, st2) \<and> a \<noteq> b"
    by (rule emplace_differ[OF assms(2)])
next
  assume "ordered_in (cells st) t p" "ordered_in (cells st) t q"
  then show "(\<forall>env. denote (cells st) p env = denote (cells st) q env) \<longleftrightarrow> p = q"
    by (rule reachable_ordered_canonical[OF assms(1)])
next
  assume "literal i b st = Inr (v, st')"
  then show "ordered_in (cells st') s v" by (rule literal_ordered[OF assms])
next
  assume "ordered_in (cells st) s x" "invert n x st = Inr (v, st')"
  then show "ordered_in (cells st') s v" by (rule invert_ordered[OF assms])
next
  assume o: "ordered_in (cells st) s x" "ordered_in (cells st) s y"
    "\<forall>z\<in>set zs. ordered_in (cells st) s z"
    and j: "conjoin n x y zs st = Inr (v, st') \<or> disjoin n x y zs st = Inr (v, st')"
  from reachable_heap_inv[OF assms(1)] have cb: "children_before (cells st)"
    by (simp add: heap_inv_def)
  from j show "ordered_in (cells st') s v"
  proof
    assume "conjoin n x y zs st = Inr (v, st')"
    then have "join_v n ONE ZERO x y zs st = Inr (v, st')" by (simp add: conjoin_def)
    from join_v_ordered[OF _ assms(2) cb o this] show ?thesis by simp
  next
    assume "disjoin n x y zs st = Inr (v, st')"
    then have "join_v n ZERO ONE x y zs st = Inr (v, st')" by (simp add: disjoin_def)
    from join_v_ordered[OF _ assms(2) cb o this] show ?thesis by simp
  qed
next
  assume o: "ordered_in (cells st) t p"
    and "emplace d l r st = Inr (v, st') \<or> literal i b st = Inr (v, st') \<or>
          invert n x st = Inr (v, st') \<or> conjoin n x y zs st = Inr (v, st') \<or>
          disjoin n x y zs st = Inr (v, st')"
  from primitives_extend[OF this(2)] obtain ys where "cells st' = cells st @ ys" by blast
  with o show "ordered_in (cells st') t p" by (simp add: ordered_in_append)
  qed
  from conjI[OF main R] show ?thesis unfolding conj_assoc .
qed

theorem emplace_canonical_ordered_witness:
  "reachable ex_two \<and> s_factors ex_two = Some 0 \<and> Addr 0 \<noteq> Addr 1 \<and>
   (2 :: 32 word, Addr 0, Addr 1) \<noteq> (3, Addr 0, Addr 1) \<and>
   ordered_in (cells ex_two) 0 (Addr 0) \<and> ordered_in (cells ex_two) 0 (Addr 1) \<and>
   (\<exists>v st1. emplace 2 (Addr 0) (Addr 1) ex_two = Inr (v, st1) \<and>
      (\<forall>ys. emplace 2 (Addr 0) (Addr 1) (st1\<lparr>cells := cells st1 @ ys\<rparr>)
              = Inr (v, st1\<lparr>cells := cells st1 @ ys\<rparr>))) \<and>
   (\<exists>a st1 b st2. emplace 2 (Addr 0) (Addr 1) ex_two = Inr (Addr a, st1) \<and>
      emplace 3 (Addr 0) (Addr 1) st1 = Inr (Addr b, st2) \<and> a \<noteq> b) \<and>
   ((\<forall>env. denote (cells ex_two) (Addr 0) env = denote (cells ex_two) (Addr 1) env)
      \<longleftrightarrow> Addr 0 = Addr 1) \<and>
   literal 2 True ex_two
     = Inr (Addr 2, ex_two\<lparr>cells := cells ex_two
                               @ [(0, \<lparr>depth = 2, negative = ZERO, positive = ONE\<rparr>)]\<rparr>) \<and>
   ordered_in (cells ex_two @ [(0, \<lparr>depth = 2, negative = ZERO, positive = ONE\<rparr>)]) 0 (Addr 2) \<and>
   ordered_in (cells ex_two @ [(0, \<lparr>depth = 2, negative = ZERO, positive = ONE\<rparr>)]) 0 (Addr 1) \<and>
   invert 1 (Addr 0) ex_two
     = Inr (Addr 2, ex_two\<lparr>cells := cells ex_two
                               @ [(0, \<lparr>depth = 0, negative = ONE, positive = ZERO\<rparr>)]\<rparr>) \<and>
   ordered_in (cells ex_two @ [(0, \<lparr>depth = 0, negative = ONE, positive = ZERO\<rparr>)]) 0 (Addr 2) \<and>
   disjoin 1 (Addr 0) (Addr 1) [] ex_two = Inr (Addr 2, ex_two_or) \<and>
   ordered_in (cells ex_two_or) 0 (Addr 2) \<and>
   (\<exists>N. \<forall>m. N \<le> m \<longrightarrow> (\<exists>w st1. conjoin m (Addr 0) (Addr 1) [] ex_two = Inr (w, st1))) \<and>
   (\<exists>N. \<forall>m. N \<le> m \<longrightarrow> (\<exists>w st1. disjoin m (Addr 0) (Addr 1) [] ex_two = Inr (w, st1)))"
proof -
  have b: "s_factors ex_two = Some 0" by (simp add: ex_two_def)
  have ne: "Addr 0 \<noteq> Addr 1" "(2 :: 32 word, Addr 0, Addr 1) \<noteq> (3, Addr 0, Addr 1)"
    by simp_all
  have o: "ordered_in (cells ex_two) 0 (Addr 0)" "ordered_in (cells ex_two) 0 (Addr 1)"
    by (simp_all add: ordered_in_Addr ex_two_def above_def)
  have oz: "\<forall>z\<in>set []. ordered_in (cells ex_two) 0 z" by simp
  have lit: "literal 2 True ex_two
     = Inr (Addr 2, ex_two\<lparr>cells := cells ex_two
                               @ [(0, \<lparr>depth = 2, negative = ZERO, positive = ONE\<rparr>)]\<rparr>)"
    by (simp add: literal_def emplace_def ex_two_def)
  have inv: "invert 1 (Addr 0) ex_two
     = Inr (Addr 2, ex_two\<lparr>cells := cells ex_two
                               @ [(0, \<lparr>depth = 0, negative = ONE, positive = ZERO\<rparr>)]\<rparr>)"
    by (simp add: invert_def invert_c.simps deref_def emplace_def ex_two_def Let_def)
  have dis: "disjoin 1 (Addr 0) (Addr 1) [] ex_two = Inr (Addr 2, ex_two_or)"
    unfolding disjoin_def by (rule join_v_binary[OF ex_two_or_step])
  note T = emplace_canonical_ordered[OF reachable_ex_two b]
  from T[of 2 "Addr 0" "Addr 1"]
  have 1: "\<exists>v st1. emplace 2 (Addr 0) (Addr 1) ex_two = Inr (v, st1) \<and>
      (\<forall>ys. emplace 2 (Addr 0) (Addr 1) (st1\<lparr>cells := cells st1 @ ys\<rparr>)
              = Inr (v, st1\<lparr>cells := cells st1 @ ys\<rparr>))"
    by (rule conjunct1)
  from T[of 2 "Addr 0" "Addr 1" "Addr 0" "Addr 1" 3, THEN conjunct2, THEN conjunct1] ne
  have 2: "\<exists>a st1 b st2. emplace 2 (Addr 0) (Addr 1) ex_two = Inr (Addr a, st1) \<and>
      emplace 3 (Addr 0) (Addr 1) st1 = Inr (Addr b, st2) \<and> a \<noteq> b"
    by blast
  from T[where t = 0 and p = "Addr 0" and q = "Addr 1", THEN conjunct2, THEN conjunct2,
      THEN conjunct1] o
  have 3: "(\<forall>env. denote (cells ex_two) (Addr 0) env = denote (cells ex_two) (Addr 1) env)
      \<longleftrightarrow> Addr 0 = Addr 1"
    by blast
  note L = T[where i = 2 and b = True and v = "Addr 2" and t = 0 and p = "Addr 1"
      and st' = "ex_two\<lparr>cells := cells ex_two
                               @ [(0, \<lparr>depth = 2, negative = ZERO, positive = ONE\<rparr>)]\<rparr>"]
  from L[THEN conjunct2, THEN conjunct2, THEN conjunct2, THEN conjunct1] lit
  have 4: "ordered_in (cells ex_two @ [(0, \<lparr>depth = 2, negative = ZERO, positive = ONE\<rparr>)])
             0 (Addr 2)"
    by simp
  from L[THEN conjunct2, THEN conjunct2, THEN conjunct2, THEN conjunct2, THEN conjunct2,
      THEN conjunct2, THEN conjunct1] lit o(2)
  have kept: "ordered_in (cells ex_two @ [(0, \<lparr>depth = 2, negative = ZERO, positive = ONE\<rparr>)])
             0 (Addr 1)"
    by simp
  from T[where n = 1 and x = "Addr 0" and v = "Addr 2"
      and st' = "ex_two\<lparr>cells := cells ex_two
                               @ [(0, \<lparr>depth = 0, negative = ONE, positive = ZERO\<rparr>)]\<rparr>",
      THEN conjunct2, THEN conjunct2, THEN conjunct2, THEN conjunct2, THEN conjunct1] inv o(1)
  have 5: "ordered_in (cells ex_two @ [(0, \<lparr>depth = 0, negative = ONE, positive = ZERO\<rparr>)])
             0 (Addr 2)"
    by simp
  from T[where n = 1 and x = "Addr 0" and y = "Addr 1" and zs = "[]" and v = "Addr 2"
      and st' = ex_two_or, THEN conjunct2, THEN conjunct2, THEN conjunct2, THEN conjunct2,
      THEN conjunct2, THEN conjunct1] dis o oz
  have 6: "ordered_in (cells ex_two_or) 0 (Addr 2)"
    by blast
  note J = T[where x = "Addr 0" and y = "Addr 1" and zs = "[]", THEN conjunct2,
      THEN conjunct2, THEN conjunct2, THEN conjunct2, THEN conjunct2, THEN conjunct2,
      THEN conjunct2, THEN conjunct2, THEN conjunct2, THEN mp, THEN mp, THEN mp, OF o oz]
  from J[THEN conjunct1] J[THEN conjunct2]
  have 7: "\<exists>N. \<forall>m. N \<le> m \<longrightarrow> (\<exists>w st1. conjoin m (Addr 0) (Addr 1) [] ex_two = Inr (w, st1))"
    "\<exists>N. \<forall>m. N \<le> m \<longrightarrow> (\<exists>w st1. disjoin m (Addr 0) (Addr 1) [] ex_two = Inr (w, st1))"
    by this+
  from reachable_ex_two b ne o 1 2 3 lit 4 kept inv 5 dis 6 7 show ?thesis by (intro conjI)
qed

end
